theory Spec2Isabelle
  imports Main "HOL-Library.Word"
begin

unbundle bit_operations_syntax

section \<open>The linear allocator of DirectXTK12 (LinearAllocator.cpp)\<close>

text \<open>
  The embedding follows \<^verbatim>\<open>src/DirectXTK12/Src/LinearAllocator.cpp\<close>.

  \<^item> \<^verbatim>\<open>size_t\<close> is a 64-bit word: \<open>+\<close> and \<open>-\<close> wrap around, \<open>AND\<close> and \<open>NOT\<close>
    are bitwise.
  \<^item> A \<^verbatim>\<open>LinearAllocatorPage*\<close> is an \<open>addr option\<close> (\<open>None\<close> is \<^verbatim>\<open>nullptr\<close>); the page
    objects live in a store \<open>addr \<Rightarrow> page option\<close>, so the intrusive links
    \<^verbatim>\<open>pPrevPage\<close> and \<^verbatim>\<open>pNextPage\<close> are modelled as the code has them.
  \<^item> The build configuration is the parameter \<open>dbg\<close>: \<open>True\<close> is a debug build
    (\<^verbatim>\<open>_DEBUG\<close> defined, \<^verbatim>\<open>assert\<close> active), \<open>False\<close> a release build (the
    \<^verbatim>\<open>#ifdef _DEBUG\<close> blocks and every \<^verbatim>\<open>assert\<close> compiled out).
  \<^item> Every way a call can end other than by returning is a value of \<open>error\<close>.
\<close>

type_synonym size_t = "64 word"
type_synonym addr = nat

datatype error =
    SizeOutOfRange        \<comment> \<open>\<^verbatim>\<open>std::out_of_range\<close>: size must be less or equal to the increment\<close>
  | AlignmentOutOfRange   \<comment> \<open>\<^verbatim>\<open>std::out_of_range\<close>: alignment must be less or equal to the increment\<close>
  | ZeroSize              \<comment> \<open>\<^verbatim>\<open>std::exception\<close>: Cannot honor zero size allocation request.\<close>
  | OutOfMemory           \<comment> \<open>\<^verbatim>\<open>std::exception\<close>: Out of memory.\<close>
  | PageSuballocFull      \<comment> \<open>\<^verbatim>\<open>std::exception\<close>: Out of free memory in page suballoc\<close>
  | MapFailed             \<comment> \<open>the exception of \<^verbatim>\<open>ThrowIfFailed(spResource->Map(...))\<close>\<close>
  | DivideByZero          \<comment> \<open>division by a zero page size in the constructor\<close>
  | AssertFailed          \<comment> \<open>an \<^verbatim>\<open>assert\<close> that does not hold (debug build)\<close>
  | BadPointer            \<comment> \<open>a dereference of a pointer to no live page\<close>
  | BadAlloc              \<comment> \<open>\<^verbatim>\<open>std::bad_alloc\<close>, thrown by \<^verbatim>\<open>new LinearAllocatorPage\<close>\<close>


definition CapacityExceeded :: "error \<Rightarrow> bool" where
  "CapacityExceeded e = (e = PageSuballocFull)"

subsection \<open>Pages\<close>

text \<open>
  The fields of \<^verbatim>\<open>LinearAllocatorPage\<close> that the allocator reads or writes. The header
  that declares them is not part of the sources; \<^verbatim>\<open>mOffset\<close> and \<^verbatim>\<open>mSize\<close> are
  computed with in \<^verbatim>\<open>size_t\<close>. The device handles (\<^verbatim>\<open>mMemory\<close>,
  \<^verbatim>\<open>mUploadResource\<close>, \<^verbatim>\<open>mFence\<close>, \<^verbatim>\<open>mGpuAddress\<close>) are opaque to this file and left
  out; what the fence reports is an input of \<open>RetirePendingPages\<close>.

  Modelled from the spec: the types of \<^verbatim>\<open>mPendingFence\<close> and of the reference count
  are declared in LinearAllocator.h, which is missing. The specification describes the
  first as a monotonically increasing counter whose value 0 means that no signal is
  outstanding, and the second as a count that is never negative: both are \<open>nat\<close>.
\<close>

record page =
  pPrevPage :: "addr option"
  pNextPage :: "addr option"
  mPendingFence :: nat
  mOffset :: size_t
  mSize :: size_t
  mRefCount :: nat

text \<open>The constructor \<^verbatim>\<open>LinearAllocatorPage::LinearAllocatorPage\<close>.\<close>

definition LinearAllocatorPage :: page where
  "LinearAllocatorPage =
     \<lparr>pPrevPage = None, pNextPage = None, mPendingFence = 0, mOffset = 0, mSize = 0,
      mRefCount = 0\<rparr>"

definition AlignOffset :: "bool \<Rightarrow> size_t \<Rightarrow> size_t \<Rightarrow> error + size_t" where
  "AlignOffset dbg offset alignment =
     (if alignment > 0 then
        if dbg \<and> alignment AND (alignment - 1) \<noteq> 0 then Inl AssertFailed
        else Inr ((offset + alignment - 1) AND NOT (alignment - 1))
      else Inr offset)"

definition Suballocate :: "bool \<Rightarrow> page \<Rightarrow> size_t \<Rightarrow> size_t \<Rightarrow> error + size_t \<times> page" where
  "Suballocate dbg pg sz alignment =
     (case AlignOffset dbg (mOffset pg) alignment of
        Inl e \<Rightarrow> Inl e
      | Inr offset \<Rightarrow>
          if dbg \<and> offset + sz > mSize pg then Inl PageSuballocFull
          else Inr (offset, pg\<lparr>mOffset := offset + sz\<rparr>))"

text \<open>
  The specification's reading of ``aligning up'', on unbounded numbers: the least
  multiple of the alignment that is not below the offset; alignment 0 is no constraint.
\<close>

definition spec_align_up :: "nat \<Rightarrow> nat \<Rightarrow> nat" where
  "spec_align_up n a = (if a = 0 then n else ((n + a - 1) div a) * a)"

subsection \<open>The allocator and its store of pages\<close>

text \<open>
  \<open>heap\<close> holds the page objects made by \<^verbatim>\<open>new LinearAllocatorPage\<close> and not yet
  deleted. The three list heads are the members \<^verbatim>\<open>m_pendingPages\<close>, \<^verbatim>\<open>m_usedPages\<close>
  and \<^verbatim>\<open>m_unusedPages\<close>.

  Modelled from the spec: \<^verbatim>\<open>m_numPending\<close> and \<^verbatim>\<open>m_totalPages\<close> are declared in the
  missing header; the specification calls the second the total-page count, and both are
  counts of pages: \<open>nat\<close>.
\<close>

record allocator =
  heap :: "addr \<Rightarrow> page option"
  m_pendingPages :: "addr option"
  m_usedPages :: "addr option"
  m_unusedPages :: "addr option"
  m_increment :: size_t
  m_numPending :: nat
  m_totalPages :: nat

text \<open>Sequencing of calls that may fail.\<close>

definition bind_err :: "error + 'a \<Rightarrow> ('a \<Rightarrow> error + 'b) \<Rightarrow> error + 'b" where
  "bind_err r f = (case r of Inl e \<Rightarrow> Inl e | Inr x \<Rightarrow> f x)"

text \<open>
  A loop over a linked list need not end when the links form a cycle: the loops are
  partial functions, \<open>None\<close> is a call that never returns.
\<close>

definition bind_res ::
  "(error + 'a) option \<Rightarrow> ('a \<Rightarrow> (error + 'b) option) \<Rightarrow> (error + 'b) option" where
  "bind_res r f = (case r of None \<Rightarrow> None | Some (Inl e) \<Rightarrow> Some (Inl e) | Some (Inr x) \<Rightarrow> f x)"

definition store :: "addr \<Rightarrow> page \<Rightarrow> allocator \<Rightarrow> allocator" where
  "store a pg s = s\<lparr>heap := (heap s)(a \<mapsto> pg)\<rparr>"

text \<open>The assignments \<^verbatim>\<open>a->pNextPage = v\<close> and \<^verbatim>\<open>a->pPrevPage = v\<close>.\<close>

definition set_pNextPage :: "addr \<Rightarrow> addr option \<Rightarrow> allocator \<Rightarrow> error + allocator" where
  "set_pNextPage a v s =
     (case heap s a of None \<Rightarrow> Inl BadPointer | Some pg \<Rightarrow> Inr (store a (pg\<lparr>pNextPage := v\<rparr>) s))"

definition set_pPrevPage :: "addr \<Rightarrow> addr option \<Rightarrow> allocator \<Rightarrow> error + allocator" where
  "set_pPrevPage a v s =
     (case heap s a of None \<Rightarrow> Inl BadPointer | Some pg \<Rightarrow> Inr (store a (pg\<lparr>pPrevPage := v\<rparr>) s))"

text \<open>\<^verbatim>\<open>assert(P(*a))\<close>: checked, and the page read, in a debug build only.\<close>

definition assert_page :: "bool \<Rightarrow> allocator \<Rightarrow> addr \<Rightarrow> (page \<Rightarrow> bool) \<Rightarrow> error + unit" where
  "assert_page dbg s a P =
     (if dbg then
        case heap s a of None \<Rightarrow> Inl BadPointer
        | Some pg \<Rightarrow> if P pg then Inr () else Inl AssertFailed
      else Inr ())"

text \<open>
  \<open>LinkPage\<close> and \<open>LinkPageChain\<close> take the list head by reference
  (\<^verbatim>\<open>LinearAllocatorPage*& list\<close>); the model names the member that is passed.
\<close>

datatype list_head = PendingPages | UsedPages | UnusedPages

definition get_head :: "list_head \<Rightarrow> allocator \<Rightarrow> addr option" where
  "get_head l s =
     (case l of PendingPages \<Rightarrow> m_pendingPages s | UsedPages \<Rightarrow> m_usedPages s
      | UnusedPages \<Rightarrow> m_unusedPages s)"

definition set_head :: "list_head \<Rightarrow> addr option \<Rightarrow> allocator \<Rightarrow> allocator" where
  "set_head l v s =
     (case l of PendingPages \<Rightarrow> s\<lparr>m_pendingPages := v\<rparr> | UsedPages \<Rightarrow> s\<lparr>m_usedPages := v\<rparr>
      | UnusedPages \<Rightarrow> s\<lparr>m_unusedPages := v\<rparr>)"

text \<open>\<^verbatim>\<open>assert(list == nullptr || list->pPrevPage == nullptr)\<close>\<close>

definition assert_head :: "bool \<Rightarrow> list_head \<Rightarrow> allocator \<Rightarrow> error + unit" where
  "assert_head dbg l s =
     (case get_head l s of None \<Rightarrow> Inr ()
      | Some h \<Rightarrow> assert_page dbg s h (\<lambda>pg. pPrevPage pg = None))"

subsection \<open>List surgery\<close>

definition UnlinkPage :: "addr \<Rightarrow> allocator \<Rightarrow> error + allocator" where
  "UnlinkPage page s =
     (case heap s page of
        None \<Rightarrow> Inl BadPointer
      | Some pg \<Rightarrow>
          bind_err
            (case pPrevPage pg of
               Some prv \<Rightarrow> set_pNextPage prv (pNextPage pg) s
             | None \<Rightarrow>
                 \<comment> \<open>Check that it isn't the head of any of our tracked lists\<close>
                 if Some page = m_unusedPages s then Inr (s\<lparr>m_unusedPages := pNextPage pg\<rparr>)
                 else if Some page = m_usedPages s then Inr (s\<lparr>m_usedPages := pNextPage pg\<rparr>)
                 else if Some page = m_pendingPages s then Inr (s\<lparr>m_pendingPages := pNextPage pg\<rparr>)
                 else Inr s)
            (\<lambda>s1. bind_err
               (case pNextPage pg of
                  Some nxt \<Rightarrow> set_pPrevPage nxt (pPrevPage pg) s1
                | None \<Rightarrow> Inr s1)
               (\<lambda>s2. bind_err (set_pNextPage page None s2) (set_pPrevPage page None))))"

definition LinkPage :: "bool \<Rightarrow> addr \<Rightarrow> list_head \<Rightarrow> allocator \<Rightarrow> error + allocator" where
  "LinkPage dbg page l s =
     bind_err (assert_page dbg s page (\<lambda>pg. pNextPage pg = None)) (\<lambda>_.
     bind_err (assert_page dbg s page (\<lambda>pg. pPrevPage pg = None)) (\<lambda>_.
     bind_err (assert_head dbg l s) (\<lambda>_.
     bind_err (set_pNextPage page (get_head l s) s) (\<lambda>s1.
     bind_err
       (case get_head l s of Some h \<Rightarrow> set_pPrevPage h (Some page) s1 | None \<Rightarrow> Inr s1)
       (\<lambda>s2. Inr (set_head l (Some page) s2))))))"

text \<open>
  The loop of \<open>LinkPageChain\<close> that follows the chain to its end:
  \<^verbatim>\<open>for (lastPage = page; lastPage->pNextPage != nullptr; lastPage = lastPage->pNextPage) {}\<close>
\<close>

partial_function (option) LinkPageChain_last :: "allocator \<Rightarrow> addr \<Rightarrow> (error + addr) option" where
  "LinkPageChain_last s lastPage =
     (case heap s lastPage of
        None \<Rightarrow> Some (Inl BadPointer)
      | Some pg \<Rightarrow>
          (case pNextPage pg of
             None \<Rightarrow> Some (Inr lastPage)
           | Some nxt \<Rightarrow> LinkPageChain_last s nxt))"

definition LinkPageChain ::
  "bool \<Rightarrow> addr \<Rightarrow> list_head \<Rightarrow> allocator \<Rightarrow> (error + allocator) option" where
  "LinkPageChain dbg page l s =
     bind_res (Some (assert_page dbg s page (\<lambda>pg. pPrevPage pg = None))) (\<lambda>_.
     bind_res (Some (assert_head dbg l s)) (\<lambda>_.
     bind_res (LinkPageChain_last s page) (\<lambda>lastPage.
     bind_res (Some (set_pNextPage lastPage (get_head l s) s)) (\<lambda>s1.
     bind_res
       (Some (case get_head l s of
                Some h \<Rightarrow> set_pPrevPage h (Some lastPage) s1
              | None \<Rightarrow> Inr s1))
       (\<lambda>s2. Some (Inr (set_head l (Some page) s2)))))))"

subsection \<open>Creating and acquiring pages\<close>

text \<open>
  What the device and the C++ runtime answer to one call of \<open>GetNewPage\<close>:
  \<^verbatim>\<open>CreateCommittedResource\<close> fails, \<^verbatim>\<open>Map\<close> fails, \<^verbatim>\<open>CreateFence\<close> fails,
  \<^verbatim>\<open>new\<close> throws \<^verbatim>\<open>std::bad_alloc\<close>, or all succeed and \<^verbatim>\<open>new\<close> returns an
  address. The exceptions leave the allocator as it was: they come before the first
  assignment to a member, and the resource and the fence are held by \<^verbatim>\<open>ComPtr\<close>.
\<close>

datatype backend = CreateResourceFails | MapFails | CreateFenceFails | NewThrows | Creates addr

definition GetNewPage :: "backend \<Rightarrow> allocator \<Rightarrow> error + addr option \<times> allocator" where
  "GetNewPage b s =
     (case b of
        CreateResourceFails \<Rightarrow> Inr (None, s)
      | MapFails \<Rightarrow> Inl MapFailed
      | CreateFenceFails \<Rightarrow> Inr (None, s)
      | NewThrows \<Rightarrow> Inl BadAlloc
      | Creates a \<Rightarrow>
          let page = LinearAllocatorPage
                \<lparr>mSize := m_increment s, pPrevPage := None, pNextPage := m_unusedPages s\<rparr>;
              s1 = store a page s
          in bind_err
               (case m_unusedPages s of
                  Some u \<Rightarrow> set_pPrevPage u (Some a) s1
                | None \<Rightarrow> Inr s1)
               (\<lambda>s2. Inr (Some a,
                  s2\<lparr>m_unusedPages := Some a, m_totalPages := m_totalPages s2 + 1\<rparr>)))"

definition GetCleanPageForAlloc ::
  "bool \<Rightarrow> backend \<Rightarrow> allocator \<Rightarrow> error + addr option \<times> allocator" where
  "GetCleanPageForAlloc dbg b s =
     bind_err
       (case m_unusedPages s of
          Some p \<Rightarrow> Inr (Some p, s)
        | None \<Rightarrow> GetNewPage b s)
       (\<lambda>(page, s1).
          case page of
            None \<Rightarrow> Inr (None, s1)
          | Some p \<Rightarrow>
              bind_err (UnlinkPage p s1) (\<lambda>s2.
              bind_err (LinkPage dbg p UsedPages s2) (\<lambda>s3.
              bind_err (assert_page dbg s3 p (\<lambda>pg. mOffset pg = 0)) (\<lambda>_.
              Inr (Some p, s3)))))"

text \<open>The overload \<^verbatim>\<open>FindPageForAlloc(list, sizeBytes, alignment)\<close>: the scan of a list.\<close>

partial_function (option) FindPageForAlloc_list ::
  "bool \<Rightarrow> allocator \<Rightarrow> addr option \<Rightarrow> size_t \<Rightarrow> size_t \<Rightarrow> (error + addr option) option" where
  "FindPageForAlloc_list dbg s page sizeBytes alignment =
     (case page of
        None \<Rightarrow> Some (Inr None)
      | Some a \<Rightarrow>
          (case heap s a of
             None \<Rightarrow> Some (Inl BadPointer)
           | Some pg \<Rightarrow>
               (case AlignOffset dbg (mOffset pg) alignment of
                  Inl e \<Rightarrow> Some (Inl e)
                | Inr offset \<Rightarrow>
                    if offset + sizeBytes \<le> m_increment s then Some (Inr (Some a))
                    else FindPageForAlloc_list dbg s (pNextPage pg) sizeBytes alignment)))"

definition GetPageForAlloc ::
  "bool \<Rightarrow> backend \<Rightarrow> size_t \<Rightarrow> size_t \<Rightarrow> allocator \<Rightarrow> (error + addr option \<times> allocator) option"
  where
  "GetPageForAlloc dbg b sizeBytes alignment s =
     (if sizeBytes = m_increment s \<and> (alignment = 0 \<or> alignment = m_increment s)
      then Some (GetCleanPageForAlloc dbg b s)
      else
        bind_res (FindPageForAlloc_list dbg s (m_usedPages s) sizeBytes alignment) (\<lambda>page.
          case page of
            None \<Rightarrow> Some (GetCleanPageForAlloc dbg b s)
          | Some p \<Rightarrow> Some (Inr (Some p, s))))"

text \<open>The public \<^verbatim>\<open>FindPageForAlloc(size, alignment)\<close>.\<close>

definition FindPageForAlloc ::
  "bool \<Rightarrow> backend \<Rightarrow> size_t \<Rightarrow> size_t \<Rightarrow> allocator \<Rightarrow> (error + addr \<times> allocator) option" where
  "FindPageForAlloc dbg b sz alignment s =
     (if dbg \<and> sz > m_increment s then Some (Inl SizeOutOfRange)
      else if dbg \<and> alignment > m_increment s then Some (Inl AlignmentOutOfRange)
      else if dbg \<and> sz = 0 then Some (Inl ZeroSize)
      else
        bind_res (GetPageForAlloc dbg b sz alignment s) (\<lambda>(page, s1).
          case page of
            None \<Rightarrow> Some (Inl OutOfMemory)
          | Some p \<Rightarrow> Some (Inr (p, s1))))"

subsection \<open>Commit: FenceCommittedPages\<close>

text \<open>
  The loop over the used pages. \<^verbatim>\<open>numReady\<close> is a \<^verbatim>\<open>UINT\<close>, 32 bits wide. The call
  \<^verbatim>\<open>commandQueue->Signal(page->mFence.Get(), ++page->mPendingFence)\<close> hands the new
  value to the device; in the allocator it leaves the incremented \<^verbatim>\<open>mPendingFence\<close>.
\<close>

partial_function (option) FenceCommittedPages_loop ::
  "allocator \<Rightarrow> addr option \<Rightarrow> 32 word \<Rightarrow> addr option \<Rightarrow> addr option \<Rightarrow>
     (error + allocator \<times> 32 word \<times> addr option \<times> addr option) option" where
  "FenceCommittedPages_loop s page numReady readyPages unreadyPages =
     (case page of
        None \<Rightarrow> Some (Inr (s, numReady, readyPages, unreadyPages))
      | Some a \<Rightarrow>
          (case heap s a of
             None \<Rightarrow> Some (Inl BadPointer)
           | Some pg \<Rightarrow>
               let nextPage = pNextPage pg in
               if mRefCount pg = 0 then
                 (case bind_err
                    (Inr (store a (pg\<lparr>pPrevPage := None, mPendingFence := mPendingFence pg + 1,
                                      pNextPage := readyPages\<rparr>) s))
                    (\<lambda>s1. case readyPages of
                             Some r \<Rightarrow> set_pPrevPage r (Some a) s1
                           | None \<Rightarrow> Inr s1) of
                    Inl e \<Rightarrow> Some (Inl e)
                  | Inr s2 \<Rightarrow>
                      FenceCommittedPages_loop s2 nextPage (numReady + 1) (Some a) unreadyPages)
               else
                 (case bind_err
                    (Inr (store a (pg\<lparr>pPrevPage := None, pNextPage := unreadyPages\<rparr>) s))
                    (\<lambda>s1. case unreadyPages of
                             Some u \<Rightarrow> set_pPrevPage u (Some a) s1
                           | None \<Rightarrow> Inr s1) of
                    Inl e \<Rightarrow> Some (Inl e)
                  | Inr s2 \<Rightarrow>
                      FenceCommittedPages_loop s2 nextPage numReady readyPages (Some a))))"

definition FenceCommittedPages :: "bool \<Rightarrow> allocator \<Rightarrow> (error + allocator) option" where
  "FenceCommittedPages dbg s =
     (if m_usedPages s = None then Some (Inr s)
      else
        bind_res (FenceCommittedPages_loop s (m_usedPages s) 0 None None)
          (\<lambda>(s1, numReady, readyPages, unreadyPages).
             let s2 = s1\<lparr>m_usedPages := unreadyPages\<rparr> in
             if numReady > 0 then
               (case readyPages of
                  None \<Rightarrow> Some (Inl BadPointer)
                | Some r \<Rightarrow>
                    LinkPageChain dbg r PendingPages
                      (s2\<lparr>m_numPending := m_numPending s2 + unat numReady\<rparr>))
             else Some (Inr s2)))"

subsection \<open>Retire: RetirePendingPages\<close>

definition ReleasePage :: "bool \<Rightarrow> addr \<Rightarrow> allocator \<Rightarrow> error + allocator" where
  "ReleasePage dbg page s =
     (if dbg \<and> \<not> m_numPending s > 0 then Inl AssertFailed
      else
        bind_err (UnlinkPage page (s\<lparr>m_numPending := m_numPending s - 1\<rparr>)) (\<lambda>s1.
        bind_err (LinkPage dbg page UnusedPages s1) (\<lambda>s2.
          case heap s2 page of
            None \<Rightarrow> Inl BadPointer
          | Some pg \<Rightarrow> Inr (store page (pg\<lparr>mOffset := 0\<rparr>) s2))))"

text \<open>
  \<open>completed a\<close> is what \<^verbatim>\<open>page->mFence->GetCompletedValue()\<close> answers when the loop
  polls the fence of the page at \<open>a\<close>.
\<close>

partial_function (option) RetirePendingPages_loop ::
  "bool \<Rightarrow> allocator \<Rightarrow> addr option \<Rightarrow> (addr \<Rightarrow> nat) \<Rightarrow> (error + allocator) option" where
  "RetirePendingPages_loop dbg s page completed =
     (case page of
        None \<Rightarrow> Some (Inr s)
      | Some a \<Rightarrow>
          (case heap s a of
             None \<Rightarrow> Some (Inl BadPointer)
           | Some pg \<Rightarrow>
               let nextPage = pNextPage pg in
               if dbg \<and> \<not> mPendingFence pg \<noteq> 0 then Some (Inl AssertFailed)
               else if completed a \<ge> mPendingFence pg then
                 (case ReleasePage dbg a s of
                    Inl e \<Rightarrow> Some (Inl e)
                  | Inr s1 \<Rightarrow> RetirePendingPages_loop dbg s1 nextPage completed)
               else RetirePendingPages_loop dbg s nextPage completed))"

definition RetirePendingPages ::
  "bool \<Rightarrow> (addr \<Rightarrow> nat) \<Rightarrow> allocator \<Rightarrow> (error + allocator) option" where
  "RetirePendingPages dbg completed s = RetirePendingPages_loop dbg s (m_pendingPages s) completed"

subsection \<open>Freeing pages: FreePages, Shrink, the destructor\<close>

partial_function (option) FreePages :: "addr option \<Rightarrow> allocator \<Rightarrow> (error + allocator) option" where
  "FreePages page s =
     (case page of
        None \<Rightarrow> Some (Inr s)
      | Some a \<Rightarrow>
          (case heap s a of
             None \<Rightarrow> Some (Inl BadPointer)
           | Some pg \<Rightarrow>
               FreePages (pNextPage pg)
                 (s\<lparr>heap := (heap s)(a := None), m_totalPages := m_totalPages s - 1\<rparr>)))"

definition Shrink :: "allocator \<Rightarrow> (error + allocator) option" where
  "Shrink s = bind_res (FreePages (m_unusedPages s) s) (\<lambda>s1. Some (Inr (s1\<lparr>m_unusedPages := None\<rparr>)))"

text \<open>
  The loop \<^verbatim>\<open>while (m_pendingPages != nullptr) RetirePendingPages();\<close> of the
  destructor, which may run for ever, followed for at most \<open>k\<close> passes. \<open>gpu n\<close> is what
  the fences answer during the \<open>n\<close>-th pass, and \<open>n\<close> counts the passes made. The result
  tells whether the loop has ended, after how many passes, and in which state.
\<close>

fun wait_pending ::
  "bool \<Rightarrow> (nat \<Rightarrow> addr \<Rightarrow> nat) \<Rightarrow> nat \<Rightarrow> nat \<Rightarrow> allocator \<Rightarrow>
     (error + bool \<times> nat \<times> allocator) option" where
  "wait_pending dbg gpu 0 n s = Some (Inr (m_pendingPages s = None, n, s))"
| "wait_pending dbg gpu (Suc k) n s =
     (if m_pendingPages s \<noteq> None then
        (case RetirePendingPages dbg (gpu n) s of
           None \<Rightarrow> None
         | Some (Inl e) \<Rightarrow> Some (Inl e)
         | Some (Inr s1) \<Rightarrow> wait_pending dbg gpu k (Suc n) s1)
      else Some (Inr (True, n, s)))"

text \<open>
  What is seen of a call of the destructor when at most \<open>k\<close> passes of its loop are
  followed:
  \<^item> \<open>Blocked n s1\<close>: after \<open>n\<close> passes it is still in the loop, in the state \<open>s1\<close>; it
    has not reached the first call of \<open>FreePages\<close>;
  \<^item> \<open>Returned n s1 s'\<close>: the loop ended after \<open>n\<close> passes in the state \<open>s1\<close>; the two
    calls of \<open>FreePages\<close> were made from there, and the destructor returned in the
    state \<open>s'\<close>.
\<close>

datatype outcome = Blocked nat allocator | Returned nat allocator allocator

text \<open>\<^verbatim>\<open>LinearAllocator::~LinearAllocator\<close>\<close>

definition destructor ::
  "bool \<Rightarrow> (nat \<Rightarrow> addr \<Rightarrow> nat) \<Rightarrow> nat \<Rightarrow> allocator \<Rightarrow> (error + outcome) option" where
  "destructor dbg gpu k s =
     bind_res (wait_pending dbg gpu k 0 s) (\<lambda>(ended, n, s1).
       if \<not> ended then Some (Inr (Blocked n s1))
       else
         bind_res (Some (if dbg \<and> m_pendingPages s1 \<noteq> None then Inl AssertFailed else Inr ()))
           (\<lambda>_.
         bind_res (FreePages (m_unusedPages s1) s1) (\<lambda>s2.
         bind_res (FreePages (m_usedPages s2) s2) (\<lambda>s3.
           Some (Inr (Returned n s1
             (s3\<lparr>m_pendingPages := None, m_usedPages := None, m_unusedPages := None,
                 m_increment := 0\<rparr>)))))))"

subsection \<open>The constructor\<close>

text \<open>
  The loop of the constructor runs \<open>n\<close> more times; \<open>backends i\<close> is the answer to the
  \<open>i\<close>-th call of \<open>GetNewPage\<close>.
\<close>

fun preallocate :: "(nat \<Rightarrow> backend) \<Rightarrow> nat \<Rightarrow> nat \<Rightarrow> allocator \<Rightarrow> error + allocator" where
  "preallocate backends i 0 s = Inr s"
| "preallocate backends i (Suc n) s =
     bind_err (GetNewPage (backends i) s) (\<lambda>(page, s1).
       case page of
         None \<Rightarrow> Inl OutOfMemory
       | Some p \<Rightarrow> preallocate backends (Suc i) n s1)"

definition LinearAllocator :: "(nat \<Rightarrow> backend) \<Rightarrow> size_t \<Rightarrow> size_t \<Rightarrow> error + allocator" where
  "LinearAllocator backends pageSize preallocateBytes =
     (let s = \<lparr>heap = Map.empty, m_pendingPages = None, m_usedPages = None,
                m_unusedPages = None, m_increment = pageSize, m_numPending = 0,
                m_totalPages = 0\<rparr>
      in if pageSize = 0 then Inl DivideByZero
         else
           let preallocatePageCount = (preallocateBytes + pageSize - 1) div pageSize
           in preallocate backends 0
                (if preallocateBytes \<noteq> 0 then unat preallocatePageCount else 0) s)"

section \<open>The lists that the links represent\<close>

text \<open>
  \<open>slist h p as\<close>: following \<^verbatim>\<open>pNextPage\<close> from \<open>p\<close> visits exactly the pages \<open>as\<close>, in
  this order, and ends at \<^verbatim>\<open>nullptr\<close>. \<open>dlist h prv p as\<close>: moreover every page's
  \<^verbatim>\<open>pPrevPage\<close> is the page before it, and the first one's is \<open>prv\<close>.
\<close>

fun slist :: "(addr \<Rightarrow> page option) \<Rightarrow> addr option \<Rightarrow> addr list \<Rightarrow> bool" where
  "slist h p [] = (p = None)"
| "slist h p (a # as) =
     (p = Some a \<and> (case h a of None \<Rightarrow> False | Some pg \<Rightarrow> slist h (pNextPage pg) as))"

fun dlist :: "(addr \<Rightarrow> page option) \<Rightarrow> addr option \<Rightarrow> addr option \<Rightarrow> addr list \<Rightarrow> bool" where
  "dlist h prv p [] = (p = None)"
| "dlist h prv p (a # as) =
     (p = Some a \<and>
      (case h a of
         None \<Rightarrow> False
       | Some pg \<Rightarrow> pPrevPage pg = prv \<and> dlist h (Some a) (pNextPage pg) as))"

text \<open>
  \<open>lists s U S P\<close>: the unused, used and pending lists of the allocator are \<open>U\<close>, \<open>S\<close>
  and \<open>P\<close>, and no page is in two places. \<open>arena s U S P\<close>: moreover every live page
  is in one of them.
\<close>

definition lists :: "allocator \<Rightarrow> addr list \<Rightarrow> addr list \<Rightarrow> addr list \<Rightarrow> bool" where
  "lists s U S P =
     (dlist (heap s) None (m_unusedPages s) U \<and> dlist (heap s) None (m_usedPages s) S \<and>
      dlist (heap s) None (m_pendingPages s) P \<and> distinct (U @ S @ P))"

definition arena :: "allocator \<Rightarrow> addr list \<Rightarrow> addr list \<Rightarrow> addr list \<Rightarrow> bool" where
  "arena s U S P = (lists s U S P \<and> dom (heap s) = set (U @ S @ P))"

text \<open>A page without its links, and the store read that way.\<close>

definition unlinked :: "page \<Rightarrow> page" where
  "unlinked pg = pg\<lparr>pPrevPage := None, pNextPage := None\<rparr>"

definition contents :: "allocator \<Rightarrow> addr \<Rightarrow> page option" where
  "contents s a = map_option unlinked (heap s a)"

text \<open>The members of the allocator other than the list heads and the store.\<close>

definition counters :: "allocator \<Rightarrow> size_t \<times> nat \<times> nat" where
  "counters s = (m_increment s, m_numPending s, m_totalPages s)"

text \<open>
  What \<open>UnlinkPage\<close> of a page with record \<open>pg\<close> does to another page at \<open>x\<close>: the
  page before gets a new \<^verbatim>\<open>pNextPage\<close>, the page after a new \<^verbatim>\<open>pPrevPage\<close>.
\<close>

definition bypass :: "page \<Rightarrow> addr \<Rightarrow> page \<Rightarrow> page" where
  "bypass pg x q =
     q\<lparr>pNextPage := if pPrevPage pg = Some x then pNextPage pg else pNextPage q,
       pPrevPage := if pNextPage pg = Some x then pPrevPage pg else pPrevPage q\<rparr>"

text \<open>
  The test of \<open>RetirePendingPages\<close> on the page at \<open>a\<close>:
  \<^verbatim>\<open>page->mFence->GetCompletedValue() >= page->mPendingFence\<close>.
\<close>

definition fence_passed :: "allocator \<Rightarrow> (addr \<Rightarrow> nat) \<Rightarrow> addr \<Rightarrow> bool" where
  "fence_passed s completed a =
     (case heap s a of None \<Rightarrow> False | Some pg \<Rightarrow> mPendingFence pg \<le> completed a)"

section \<open>An example state\<close>

text \<open>
  Five pages of 65536 bytes, at the addresses 10 to 14: page 10 is unused, pages 11 and
  12 are used (page 12 is still referenced), pages 13 and 14 are pending, waiting for
  the fence values 5 and 2.
\<close>

definition example_page :: "addr option \<Rightarrow> addr option \<Rightarrow> nat \<Rightarrow> size_t \<Rightarrow> nat \<Rightarrow> page" where
  "example_page prv nxt fence offset refs =
     \<lparr>pPrevPage = prv, pNextPage = nxt, mPendingFence = fence, mOffset = offset,
      mSize = 65536, mRefCount = refs\<rparr>"

definition example_arena :: allocator where
  "example_arena =
     \<lparr>heap = [10 \<mapsto> example_page None None 3 0 0,
              11 \<mapsto> example_page None (Some 12) 4 8192 0,
              12 \<mapsto> example_page (Some 11) None 0 4096 7,
              13 \<mapsto> example_page None (Some 14) 5 100 0,
              14 \<mapsto> example_page (Some 13) None 2 200 0],
      m_pendingPages = Some 13, m_usedPages = Some 11, m_unusedPages = Some 10,
      m_increment = 65536, m_numPending = 2, m_totalPages = 5\<rparr>"

text \<open>The test \<^verbatim>\<open>page->RefCount() == 0\<close> of \<open>FenceCommittedPages\<close> on the page at \<open>a\<close>.\<close>

definition unreferenced :: "allocator \<Rightarrow> addr \<Rightarrow> bool" where
  "unreferenced s a = (case heap s a of None \<Rightarrow> False | Some pg \<Rightarrow> mRefCount pg = 0)"

text \<open>The example with page 12 released by its holders: both used pages can be committed.\<close>

definition example_ready :: allocator where
  "example_ready =
     example_arena\<lparr>heap := (heap example_arena)(12 \<mapsto> example_page (Some 11) None 0 4096 0)\<rparr>"

section \<open>Page acquisition as the specification describes it\<close>

text \<open>
  \<open>page_fits\<close> is the test of the scan in \<open>FindPageForAlloc_list\<close>, computed in
  \<^verbatim>\<open>size_t\<close> as the code does. \<open>cursor\<close> reads the cursor of a page as a number.
\<close>

definition page_fits :: "allocator \<Rightarrow> size_t \<Rightarrow> size_t \<Rightarrow> addr \<Rightarrow> bool" where
  "page_fits s sizeBytes alignment a =
     (case heap s a of
        None \<Rightarrow> False
      | Some pg \<Rightarrow>
          (case AlignOffset False (mOffset pg) alignment of
             Inl e \<Rightarrow> False
           | Inr offset \<Rightarrow> offset + sizeBytes \<le> m_increment s))"

definition cursor :: "allocator \<Rightarrow> addr \<Rightarrow> nat" where
  "cursor s a = (case heap s a of None \<Rightarrow> 0 | Some pg \<Rightarrow> unat (mOffset pg))"

text \<open>
  Section 4.3 of the specification, on the lists and on unbounded numbers: the page
  chosen and the unused and used lists afterwards. \<open>fresh\<close> is the page the device
  backend creates when one is needed. ``Room'' in a page is \<open>spec_fits\<close>.
\<close>

definition spec_fits :: "nat \<Rightarrow> nat \<Rightarrow> nat \<Rightarrow> nat \<Rightarrow> bool" where
  "spec_fits capacity cur sz al = (spec_align_up cur al + sz \<le> capacity)"

definition spec_clean_page :: "addr list \<Rightarrow> addr list \<Rightarrow> addr \<Rightarrow> addr \<times> addr list \<times> addr list" where
  "spec_clean_page U S fresh =
     (case U of u # U' \<Rightarrow> (u, U', u # S) | [] \<Rightarrow> (fresh, [], fresh # S))"

definition spec_acquire ::
  "nat \<Rightarrow> (addr \<Rightarrow> nat) \<Rightarrow> addr list \<Rightarrow> addr list \<Rightarrow> nat \<Rightarrow> nat \<Rightarrow> addr \<Rightarrow>
     addr \<times> addr list \<times> addr list" where
  "spec_acquire capacity cur U S sz al fresh =
     (if sz = capacity \<and> (al = 0 \<or> al = capacity) then spec_clean_page U S fresh
      else
        case find (\<lambda>p. spec_fits capacity (cur p) sz al) S of
          Some p \<Rightarrow> (p, U, S)
        | None \<Rightarrow> spec_clean_page U S fresh)"


text \<open>An allocator of pages of 65536 bytes that holds no page yet.\<close>

definition example_empty :: allocator where
  "example_empty =
     \<lparr>heap = Map.empty, m_pendingPages = None, m_usedPages = None, m_unusedPages = None,
      m_increment = 65536, m_numPending = 0, m_totalPages = 0\<rparr>"

section \<open>What the assertions check\<close>

text \<open>
  \<open>pending_asserts dbg s P\<close>: in a debug build, the conditions that \<open>RetirePendingPages\<close>
  and \<open>ReleasePage\<close> assert on the pending pages \<open>P\<close>: \<^verbatim>\<open>m_numPending\<close> counts them and
  their \<^verbatim>\<open>mPendingFence\<close> is not 0.
\<close>

definition pending_asserts :: "bool \<Rightarrow> allocator \<Rightarrow> addr list \<Rightarrow> bool" where
  "pending_asserts dbg s P =
     (dbg \<longrightarrow> m_numPending s = length P \<and>
        (\<forall>a\<in>set P. \<forall>pg. heap s a = Some pg \<longrightarrow> mPendingFence pg \<noteq> 0))"

section \<open>The allocator in use\<close>

text \<open>
  Modelled from the spec: the caller of \<open>FindPageForAlloc\<close> and of \<open>Suballocate\<close> is not
  part of the sources. Section 2 of the specification gives the data flow of a
  suballocation: the arena locates or creates a page with room for the request, then the
  page's \<open>suballocate\<close> returns the offset. \<open>Allocate\<close> is this sequence of the two calls.
\<close>

definition Allocate ::
  "bool \<Rightarrow> backend \<Rightarrow> size_t \<Rightarrow> size_t \<Rightarrow> allocator \<Rightarrow> (error + size_t \<times> allocator) option" where
  "Allocate dbg b sz alignment s =
     bind_res (FindPageForAlloc dbg b sz alignment s) (\<lambda>(p, s1).
       case heap s1 p of
         None \<Rightarrow> Some (Inl BadPointer)
       | Some pg \<Rightarrow>
           (case Suballocate dbg pg sz alignment of
              Inl e \<Rightarrow> Some (Inl e)
            | Inr (offset, pg') \<Rightarrow> Some (Inr (offset, store p pg' s1))))"

text \<open>
  The requests that the specification calls valid. The test for a power of two is the
  one that \<open>AlignOffset\<close> asserts.
\<close>

definition valid_request :: "allocator \<Rightarrow> size_t \<Rightarrow> size_t \<Rightarrow> bool" where
  "valid_request s sz alignment =
     (sz \<noteq> 0 \<and> sz \<le> m_increment s \<and> alignment \<le> m_increment s \<and>
      alignment AND (alignment - 1) = 0)"

text \<open>\<^verbatim>\<open>new\<close> returns the address of no live object.\<close>

definition fresh :: "backend \<Rightarrow> allocator \<Rightarrow> bool" where
  "fresh b s = (case b of Creates a \<Rightarrow> heap s a = None | _ \<Rightarrow> True)"

text \<open>
  One call from the owner of the allocator that returns, from the state \<open>s\<close> to the state
  \<open>s'\<close>. A call of the allocator that throws leaves the state as it was: every
  \<^verbatim>\<open>throw\<close> in \<open>FindPageForAlloc\<close> and below it comes before the first assignment.

  \<^item> \<open>careful\<close> says that the caller makes valid requests only.
  \<^item> \<open>acquire\<close> is a call of \<open>FindPageForAlloc\<close> alone: the caller need not go on to
    \<open>Suballocate\<close>, and \<open>Suballocate\<close> may throw.
  \<^item> Modelled from the spec: who changes the count of outstanding references of a page
    is left open (section 9 of the specification); a step may set it to any value.
  \<^item> \<open>commit\<close> is taken while fewer than \<open>2 ^ 32\<close> pages exist: \<^verbatim>\<open>numReady\<close> is a
    \<^verbatim>\<open>UINT\<close>.
\<close>

inductive step :: "bool \<Rightarrow> bool \<Rightarrow> allocator \<Rightarrow> allocator \<Rightarrow> bool" for dbg careful where
  acquire:
    "fresh b s \<Longrightarrow> careful \<longrightarrow> valid_request s sz alignment \<Longrightarrow>
     FindPageForAlloc dbg b sz alignment s = Some (Inr (p, s')) \<Longrightarrow> step dbg careful s s'"
| allocate:
    "fresh b s \<Longrightarrow> careful \<longrightarrow> valid_request s sz alignment \<Longrightarrow>
     Allocate dbg b sz alignment s = Some (Inr (offset, s')) \<Longrightarrow> step dbg careful s s'"
| reference:
    "heap s a = Some pg \<Longrightarrow> step dbg careful s (store a (pg\<lparr>mRefCount := n\<rparr>) s)"
| commit:
    "m_totalPages s < 2 ^ 32 \<Longrightarrow> FenceCommittedPages dbg s = Some (Inr s') \<Longrightarrow>
     step dbg careful s s'"
| retire:
    "RetirePendingPages dbg completed s = Some (Inr s') \<Longrightarrow> step dbg careful s s'"
| shrink:
    "Shrink s = Some (Inr s') \<Longrightarrow> step dbg careful s s'"

text \<open>
  The pages that a call creates are the addresses that are live after it and were not
  before; the pages that it destroys are those that were live and are not any more.
\<close>

definition created :: "allocator \<Rightarrow> allocator \<Rightarrow> nat" where
  "created s s' = card (dom (heap s') - dom (heap s))"

definition destroyed :: "allocator \<Rightarrow> allocator \<Rightarrow> nat" where
  "destroyed s s' = card (dom (heap s) - dom (heap s'))"

text \<open>
  \<open>reachable dbg careful c d s\<close>: the allocator has been constructed and is, after some
  calls, in the state \<open>s\<close>; \<open>c\<close> pages have been created so far and \<open>d\<close> destroyed. The
  addresses that \<^verbatim>\<open>new\<close> returns during the construction differ from each other.
\<close>

inductive reachable :: "bool \<Rightarrow> bool \<Rightarrow> nat \<Rightarrow> nat \<Rightarrow> allocator \<Rightarrow> bool" for dbg careful where
  construct:
    "\<forall>i j a. backends i = Creates a \<and> backends j = Creates a \<longrightarrow> i = j \<Longrightarrow>
     LinearAllocator backends pageSize preallocateBytes = Inr s \<Longrightarrow>
     reachable dbg careful (card (dom (heap s))) 0 s"
| call:
    "reachable dbg careful c d s \<Longrightarrow> step dbg careful s s' \<Longrightarrow>
     reachable dbg careful (c + created s s') (d + destroyed s s') s'"

text \<open>The pending signal value of the page at \<open>a\<close>.\<close>

definition fence :: "allocator \<Rightarrow> addr \<Rightarrow> nat" where
  "fence s a = (case heap s a of None \<Rightarrow> 0 | Some pg \<Rightarrow> mPendingFence pg)"

text \<open>
  What holds of the allocator between two calls, for its lists \<open>U\<close>, \<open>S\<close> and \<open>P\<close>: the
  counters count the pages, an unused page has its cursor at 0, a pending page has a
  signal value, and every page has the size of the allocator's increment.
\<close>

definition invariant :: "allocator \<Rightarrow> addr list \<Rightarrow> addr list \<Rightarrow> addr list \<Rightarrow> bool" where
  "invariant s U S P =
     (arena s U S P \<and> m_numPending s = length P \<and>
      m_totalPages s = length U + length S + length P \<and>
      (\<forall>a\<in>set U. cursor s a = 0) \<and> (\<forall>a\<in>set P. fence s a \<noteq> 0) \<and>
      (\<forall>a pg. heap s a = Some pg \<longrightarrow> mSize pg = m_increment s))"

text \<open>No cursor is beyond the end of its page.\<close>

definition bounded :: "allocator \<Rightarrow> bool" where
  "bounded s = (\<forall>a pg. heap s a = Some pg \<longrightarrow> mOffset pg \<le> m_increment s)"

section \<open>A page through its life\<close>

text \<open>
  The allocator of pages of 65536 bytes with the single page 10, in the list \<open>l\<close>, with
  the signal value \<open>v\<close> and the cursor \<open>offset\<close>.
\<close>

definition example_one :: "list_head \<Rightarrow> nat \<Rightarrow> size_t \<Rightarrow> allocator" where
  "example_one l v offset =
     set_head l (Some 10)
       \<lparr>heap = [10 \<mapsto> example_page None None v offset 0], m_pendingPages = None,
        m_usedPages = None, m_unusedPages = None, m_increment = 65536,
        m_numPending = (case l of PendingPages \<Rightarrow> 1 | _ \<Rightarrow> 0), m_totalPages = 1\<rparr>"

section \<open>Alignment arithmetic\<close>

lemma spec_align_up_least:
  assumes "0 < a"
  shows "a dvd spec_align_up n a" and "n \<le> spec_align_up n a"
    and "spec_align_up n a < n + a"
    and "a dvd m \<Longrightarrow> n \<le> m \<Longrightarrow> spec_align_up n a \<le> m"
proof -
  let ?q = "(n + a - 1) div a"
  have r: "spec_align_up n a = ?q * a"
    using assms by (simp add: spec_align_up_def)
  show "a dvd spec_align_up n a"
    by (simp add: r)
  have e: "?q * a + (n + a - 1) mod a = n + a - 1"
    by simp
  have lt: "(n + a - 1) mod a < a"
    using assms by simp
  show "n \<le> spec_align_up n a"
    unfolding r using e lt by linarith
  show "spec_align_up n a < n + a"
    unfolding r using e assms by linarith
  show "spec_align_up n a \<le> m" if d: "a dvd m" and le: "n \<le> m"
  proof -
    from d obtain k where k: "m = k * a"
      by (metis dvd_def mult.commute)
    have "n + a - 1 < (k + 1) * a"
      using le k assms by simp
    then have "?q < k + 1"
      using assms by (simp add: div_less_iff_less_mult)
    then have "?q * a \<le> k * a"
      by simp
    then show ?thesis
      by (simp add: r k)
  qed
qed

lemma and_not_mask_diff: "(y::size_t) AND NOT (mask k) = y - take_bit k y"
proof -
  have "y - take_bit k y = y AND NOT (take_bit k y)"
    by (rule disjunctive_diff) (simp add: bit_take_bit_iff)
  also have "\<dots> = y AND NOT (mask k)"
    by (rule bit_eqI) (auto simp: bit_and_iff bit_not_iff bit_take_bit_iff bit_mask_iff)
  finally show ?thesis by simp
qed

lemma and_not_mask_unat: "unat ((y::size_t) AND NOT (mask k)) = (unat y div 2 ^ k) * 2 ^ k"
proof -
  have le: "take_bit k y \<le> y"
    by (simp add: word_le_nat_alt unsigned_take_bit_eq take_bit_nat_def)
  have "unat (y - take_bit k y) = unat y - unat y mod 2 ^ k"
    using le by (simp add: unat_sub unsigned_take_bit_eq take_bit_nat_def)
  also have "\<dots> = (unat y div 2 ^ k) * 2 ^ k"
    by (simp add: minus_mod_eq_div_mult)
  finally show ?thesis by (simp add: and_not_mask_diff)
qed


lemma pow2_word:
  assumes k: "k < 64"
  shows "(2 ^ k :: size_t) > 0" and "unat (2 ^ k :: size_t) = 2 ^ k"
    and "(2 ^ k :: size_t) - 1 = mask k" and "(2 ^ k :: size_t) AND (2 ^ k - 1) = 0"
    and "unat (mask k :: size_t) = 2 ^ k - 1"
proof -
  have lt: "(2::nat) ^ k < 2 ^ 64"
    using k by (intro power_strict_increasing) auto
  have "unat (of_nat (2 ^ k) :: size_t) = 2 ^ k mod 2 ^ 64"
    by (simp only: unat_of_nat len_of_numeral_defs) simp
  also have "\<dots> = 2 ^ k"
    using lt by (rule mod_less)
  finally show u: "unat (2 ^ k :: size_t) = 2 ^ k" by simp
  show p: "(2 ^ k :: size_t) > 0"
    using assms by (simp add: word_gt_0)
  show m: "(2 ^ k :: size_t) - 1 = mask k"
    by (simp add: mask_eq_decr_exp)
  show "(2 ^ k :: size_t) AND (2 ^ k - 1) = 0"
    unfolding m by (rule bit_eqI) (auto simp: bit_and_iff bit_mask_iff bit_exp_iff)
  have "unat ((2 ^ k :: size_t) - 1) = unat (2 ^ k :: size_t) - 1"
    using p by (simp add: unat_minus_one word_gt_0)
  then show "unat (mask k :: size_t) = 2 ^ k - 1"
    by (simp add: m u)
qed

lemma AlignOffset_pow2:
  assumes k: "k < 64" and nov: "unat offset + 2 ^ k \<le> 2 ^ 64"
  shows "\<exists>r. AlignOffset dbg offset (2 ^ k) = Inr r \<and> unat r = spec_align_up (unat offset) (2 ^ k)"
proof -
  note m = pow2_word(5)[OF k]
  have "unat offset + unat (mask k :: size_t) < 2 ^ LENGTH(64)"
    using nov by (simp add: m)
  then have s: "unat (offset + mask k) = unat offset + 2 ^ k - 1"
    by (simp add: unat_add_lem[THEN iffD1] m)
  have e: "offset + 2 ^ k - 1 = offset + mask k"
    using pow2_word(3)[OF k] by (simp add: algebra_simps)
  have "AlignOffset dbg offset (2 ^ k) = Inr ((offset + mask k) AND NOT (mask k))"
    using pow2_word(1,4)[OF k] by (simp add: AlignOffset_def e pow2_word(3)[OF k])
  moreover have "unat ((offset + mask k) AND NOT (mask k)) = spec_align_up (unat offset) (2 ^ k)"
    by (simp add: and_not_mask_unat s spec_align_up_def)
  ultimately show ?thesis by simp
qed

lemma AlignOffset_spec:
  assumes al: "alignment = 0 \<or> (\<exists>k<64. alignment = 2 ^ k)"
    and nov: "unat offset + unat alignment \<le> 2 ^ 64"
  shows "\<exists>r. AlignOffset dbg offset alignment = Inr r \<and>
              unat r = spec_align_up (unat offset) (unat alignment)"
proof (cases "alignment = 0")
  case True
  then show ?thesis by (simp add: AlignOffset_def spec_align_up_def)
next
  case False
  with al obtain k where k: "k < 64" and a: "alignment = 2 ^ k" by blast
  show ?thesis
    using AlignOffset_pow2[OF k, of offset dbg] nov by (simp add: a pow2_word(2)[OF k])
qed

text \<open>
  Claim C3, as amended. For every page and every size and alignment, the alignment zero
  or a power of two, such that neither rounding the cursor up nor adding the size leaves
  the range of \<^verbatim>\<open>size_t\<close>: \<open>Suballocate\<close> rounds the cursor up to the alignment (an
  alignment of 0 is no constraint); in a debug build it fails with the exception of
  kind CapacityExceeded when the aligned offset plus the size exceeds \<^verbatim>\<open>mSize\<close>; in
  every other case (so always in a release build, where the check is compiled out) it
  returns the aligned offset and sets the cursor to the aligned offset plus the size,
  changing nothing else of the page.
\<close>

theorem Suballocate_correct:
  assumes al: "alignment = 0 \<or> (\<exists>k<64. alignment = 2 ^ k)"
    and nov: "unat (mOffset pg) + unat alignment \<le> 2 ^ 64"
    and nov2: "spec_align_up (unat (mOffset pg)) (unat alignment) + unat sz < 2 ^ 64"
  shows "Suballocate dbg pg sz alignment =
     (let aligned = spec_align_up (unat (mOffset pg)) (unat alignment) in
      if dbg \<and> unat (mSize pg) < aligned + unat sz then Inl PageSuballocFull
      else Inr (of_nat aligned, pg\<lparr>mOffset := of_nat (aligned + unat sz)\<rparr>))"
proof -
  from AlignOffset_spec[OF al nov, of dbg] obtain r where
    r: "AlignOffset dbg (mOffset pg) alignment = Inr r"
    and u: "unat r = spec_align_up (unat (mOffset pg)) (unat alignment)"
    by blast
  have "unat r + unat sz < 2 ^ LENGTH(64)"
    using nov2 u by simp
  then have s: "unat (r + sz) = unat r + unat sz"
    by (simp add: unat_add_lem[THEN iffD1])
  have lt: "(mSize pg < r + sz) = (unat (mSize pg) < unat r + unat sz)"
    by (simp add: word_less_nat_alt s)
  have "of_nat (unat r) = r" "of_nat (unat r + unat sz) = r + sz"
    by simp_all
  then show ?thesis
    using lt by (simp add: Suballocate_def r Let_def u[symmetric])
qed

text \<open>The theorem at a page with cursor 4097 and capacity 65536, alignment 256.\<close>

theorem Suballocate_correct_witness:
  "((256::size_t) = 0 \<or> (\<exists>k<64. (256::size_t) = 2 ^ k)) \<and>
   Suballocate True \<lparr>pPrevPage = None, pNextPage = None, mPendingFence = 0, mOffset = 4097,
        mSize = 65536, mRefCount = 0\<rparr> 4096 256 =
     Inr (4352, \<lparr>pPrevPage = None, pNextPage = None, mPendingFence = 0, mOffset = 8448,
        mSize = 65536, mRefCount = 0\<rparr>) \<and>
   Suballocate True \<lparr>pPrevPage = None, pNextPage = None, mPendingFence = 0, mOffset = 4097,
        mSize = 65536, mRefCount = 0\<rparr> 65536 256 = Inl PageSuballocFull"
proof -
  let ?pg = "\<lparr>pPrevPage = None, pNextPage = None, mPendingFence = 0, mOffset = 4097 :: size_t,
        mSize = 65536 :: size_t, mRefCount = 0\<rparr>"
  have al: "(256::size_t) = 0 \<or> (\<exists>k<64. (256::size_t) = 2 ^ k)"
    by (rule disjI2, rule exI[of _ 8]) simp
  have a: "spec_align_up 4097 256 = 4352"
    by (simp add: spec_align_up_def)
  have "Suballocate True ?pg 4096 256 = Inr (4352, ?pg\<lparr>mOffset := 8448\<rparr>)"
    using Suballocate_correct[OF al, of ?pg 4096 True] by (simp add: a)
  moreover have "Suballocate True ?pg 65536 256 = Inl PageSuballocFull"
    using Suballocate_correct[OF al, of ?pg 65536 True] by (simp add: a)
  ultimately show ?thesis using al by simp
qed

text \<open>
  Claim C3 as stated fails: a release build has no capacity check (a page of 16 bytes
  grants 32), and in a debug build the sum of the check wraps around.
\<close>

theorem Suballocate_counterexample:
  "Suballocate False \<lparr>pPrevPage = None, pNextPage = None, mPendingFence = 0, mOffset = 0,
        mSize = 16, mRefCount = 0\<rparr> 32 0 =
     Inr (0, \<lparr>pPrevPage = None, pNextPage = None, mPendingFence = 0, mOffset = 32,
        mSize = 16, mRefCount = 0\<rparr>) \<and>
   Suballocate True \<lparr>pPrevPage = None, pNextPage = None, mPendingFence = 0, mOffset = 8,
        mSize = 16, mRefCount = 0\<rparr> 18446744073709551612 0 =
     Inr (8, \<lparr>pPrevPage = None, pNextPage = None, mPendingFence = 0, mOffset = 4,
        mSize = 16, mRefCount = 0\<rparr>)"
  by (simp add: Suballocate_def AlignOffset_def)

section \<open>Linked lists in the store\<close>

lemma dlist_frame:
  "dlist h prv p as \<Longrightarrow> (\<And>a. a \<in> set as \<Longrightarrow> h' a = h a) \<Longrightarrow> dlist h' prv p as"
  by (induction as arbitrary: prv p) (auto split: option.splits)

lemma slist_frame:
  "slist h p as \<Longrightarrow> (\<And>a. a \<in> set as \<Longrightarrow> h' a = h a) \<Longrightarrow> slist h' p as"
  by (induction as arbitrary: p) (auto split: option.splits)

lemma dlist_slist: "dlist h prv p as \<Longrightarrow> slist h p as"
  by (induction as arbitrary: prv p) (auto split: option.splits)

lemma dlist_dom: "dlist h prv p as \<Longrightarrow> a \<in> set as \<Longrightarrow> \<exists>pg. h a = Some pg"
  by (induction as arbitrary: prv p) (auto split: option.splits)

lemma slist_dom: "slist h p as \<Longrightarrow> a \<in> set as \<Longrightarrow> \<exists>pg. h a = Some pg"
  by (induction as arbitrary: p) (auto split: option.splits)

lemma dlist_head: "dlist h prv p as \<Longrightarrow> p = (case as of [] \<Rightarrow> None | a # _ \<Rightarrow> Some a)"
  by (cases as) auto

lemma slist_head: "slist h p as \<Longrightarrow> p = (case as of [] \<Rightarrow> None | a # _ \<Rightarrow> Some a)"
  by (cases as) auto

lemma slist_unique: "slist h p as \<Longrightarrow> slist h p bs \<Longrightarrow> as = bs"
proof (induction as arbitrary: p bs)
  case Nil
  then show ?case by (cases bs) auto
next
  case (Cons a as)
  then show ?case by (cases bs) (auto split: option.splits)
qed

text \<open>The links of a page inside a list.\<close>

lemma dlist_links:
  assumes "dlist h prv p (xs @ a # ys)" and "h a = Some pg"
  shows "pNextPage pg = (case ys of [] \<Rightarrow> None | y # _ \<Rightarrow> Some y)"
    and "pPrevPage pg = (if xs = [] then prv else Some (last xs))"
  using assms
proof (induction xs arbitrary: prv p)
  case Nil
  {
    case 1
    then show ?case by (cases ys) (auto split: option.splits)
  next
    case 2
    then show ?case by auto
  }
next
  case (Cons x xs)
  {
    case 1
    then show ?case using Cons.IH(1) by (auto split: option.splits)
  next
    case 2
    then show ?case using Cons.IH(2) by (auto split: option.splits)
  }
qed

lemma bypass_id:
  "pPrevPage pg \<noteq> Some x \<Longrightarrow> pNextPage pg \<noteq> Some x \<Longrightarrow> bypass pg x q = q"
  by (simp add: bypass_def)

lemma map_bypass_id:
  "pPrevPage pg \<noteq> Some x \<Longrightarrow> pNextPage pg \<noteq> Some x \<Longrightarrow> map_option (bypass pg x) opt = opt"
  by (cases opt) (simp_all add: bypass_id)

lemma UnlinkPage_state:
  assumes pg: "heap s page = Some pg"
    and prv: "\<And>v. pPrevPage pg = Some v \<Longrightarrow> v \<noteq> page \<and> heap s v \<noteq> None \<and> pNextPage pg \<noteq> Some v"
    and nxt: "\<And>v. pNextPage pg = Some v \<Longrightarrow> v \<noteq> page \<and> heap s v \<noteq> None"
  shows "\<exists>s'. UnlinkPage page s = Inr s' \<and>
      heap s' = (\<lambda>x. if x = page then Some (unlinked pg) else map_option (bypass pg x) (heap s x)) \<and>
      m_unusedPages s' =
        (if pPrevPage pg = None \<and> m_unusedPages s = Some page then pNextPage pg
         else m_unusedPages s) \<and>
      m_usedPages s' =
        (if pPrevPage pg = None \<and> m_unusedPages s \<noteq> Some page \<and> m_usedPages s = Some page
         then pNextPage pg else m_usedPages s) \<and>
      m_pendingPages s' =
        (if pPrevPage pg = None \<and> m_unusedPages s \<noteq> Some page \<and> m_usedPages s \<noteq> Some page \<and>
            m_pendingPages s = Some page
         then pNextPage pg else m_pendingPages s) \<and>
      counters s' = counters s"
proof (cases "pPrevPage pg")
  case None
  show ?thesis
  proof (cases "pNextPage pg")
    case N2: None
    show ?thesis
      using pg None N2
      by (auto simp: UnlinkPage_def bind_err_def set_pNextPage_def set_pPrevPage_def store_def
          counters_def unlinked_def map_bypass_id bypass_def fun_eq_iff split: option.splits)
  next
    case (Some n)
    then obtain npg where "heap s n = Some npg" "n \<noteq> page"
      using nxt by auto
    then show ?thesis
      using pg None Some
      by (auto simp: UnlinkPage_def bind_err_def set_pNextPage_def set_pPrevPage_def store_def
          counters_def unlinked_def map_bypass_id bypass_def fun_eq_iff split: option.splits)
  qed
next
  case (Some p)
  then obtain ppg where p: "heap s p = Some ppg" "p \<noteq> page" "pNextPage pg \<noteq> Some p"
    using prv by auto
  show ?thesis
  proof (cases "pNextPage pg")
    case None
    show ?thesis
      using pg None Some p
      by (auto simp: UnlinkPage_def bind_err_def set_pNextPage_def set_pPrevPage_def store_def
          counters_def unlinked_def map_bypass_id bypass_def fun_eq_iff split: option.splits)
  next
    case S2: (Some n)
    then obtain npg where "heap s n = Some npg" "n \<noteq> page"
      using nxt by auto
    then show ?thesis
      using pg S2 Some p
      by (auto simp: UnlinkPage_def bind_err_def set_pNextPage_def set_pPrevPage_def store_def
          counters_def unlinked_def map_bypass_id bypass_def fun_eq_iff split: option.splits)
  qed
qed

lemma dlist_unlink_head:
  assumes d: "dlist h (Some a) nx ys" and dist: "a \<notin> set ys" "distinct ys"
    and pg: "pNextPage pg = nx" "pPrevPage pg = prv0"
    and prv0: "\<And>v. prv0 = Some v \<Longrightarrow> v \<notin> set ys"
    and h': "\<And>x. x \<in> set ys \<Longrightarrow> h' x = map_option (bypass pg x) (h x)"
  shows "dlist h' prv0 nx ys"
proof (cases ys)
  case Nil
  then show ?thesis using d by simp
next
  case (Cons y ys')
  with d obtain ypg where y: "nx = Some y" "h y = Some ypg" "pPrevPage ypg = Some a"
    "dlist h (Some y) (pNextPage ypg) ys'"
    by (auto split: option.splits)
  have fr: "h' z = h z" if "z \<in> set ys'" for z
  proof -
    have "z \<noteq> y" "prv0 \<noteq> Some z" using that dist prv0 Cons by auto
    then show ?thesis using h'[of z] that Cons pg y by (simp add: map_bypass_id)
  qed
  have "dlist h' (Some y) (pNextPage ypg) ys'"
    using y(4) fr by (rule dlist_frame)
  moreover have "h' y = Some (bypass pg y ypg)"
    using h'[of y] Cons y by simp
  moreover have "prv0 \<noteq> Some y" using prv0 Cons by auto
  ultimately show ?thesis
    using Cons y pg by (simp add: bypass_def)
qed

lemma dlist_unlink:
  assumes "dlist h prv0 p (xs @ a # ys)" and "distinct (xs @ a # ys)" and "h a = Some pg"
    and "\<And>v. prv0 = Some v \<Longrightarrow> v \<notin> set (xs @ a # ys)"
    and "\<And>x. x \<in> set (xs @ ys) \<Longrightarrow> h' x = map_option (bypass pg x) (h x)"
  shows "dlist h' prv0 (if xs = [] then pNextPage pg else p) (xs @ ys)"
  using assms
proof (induction xs arbitrary: prv0 p)
  case Nil
  from Nil.prems(1,3) have l: "pPrevPage pg = prv0" "dlist h (Some a) (pNextPage pg) ys"
    by (auto split: option.splits)
  have "dlist h' prv0 (pNextPage pg) ys"
    by (rule dlist_unlink_head[where h=h and a=a and pg=pg])
      (use l Nil.prems(2,4,5) in auto)
  then show ?case by simp
next
  case (Cons x xs)
  from Cons.prems(1) obtain xpg where x: "p = Some x" "h x = Some xpg" "pPrevPage xpg = prv0"
    "dlist h (Some x) (pNextPage xpg) (xs @ a # ys)"
    by (auto split: option.splits)
  have IH: "dlist h' (Some x) (if xs = [] then pNextPage pg else pNextPage xpg) (xs @ ys)"
    by (rule Cons.IH) (use Cons.prems(2-5) x(4) in auto)
  have links: "pNextPage pg = (case ys of [] \<Rightarrow> None | y # _ \<Rightarrow> Some y)"
    "pPrevPage pg = (if xs = [] then Some x else Some (last xs))"
    using dlist_links[OF x(4) Cons.prems(3)] by auto
  have nx: "pNextPage pg \<noteq> Some x"
    using links(1) Cons.prems(2) by (auto split: list.splits)
  have h'x: "h' x = Some (bypass pg x xpg)"
    using Cons.prems(5)[of x] x by simp
  show ?case
  proof (cases "xs = []")
    case True
    then show ?thesis using IH h'x links nx x by (simp add: bypass_def)
  next
    case False
    then have "last xs \<in> set xs" by simp
    then have "pPrevPage pg \<noteq> Some x"
      using links(2) False Cons.prems(2) by auto
    then show ?thesis using IH h'x nx x False by (simp add: bypass_def)
  qed
qed

lemma dlist_neighbours:
  assumes "dlist h None p (xs @ a # ys)" and "h a = Some pg"
  shows "\<And>v. pPrevPage pg = Some v \<Longrightarrow> v \<in> set xs"
    and "\<And>v. pNextPage pg = Some v \<Longrightarrow> v \<in> set ys"
    and "(pPrevPage pg = None) = (xs = [])"
    and "xs = [] \<Longrightarrow> p = Some a"
proof -
  note l = dlist_links[OF assms]
  show "v \<in> set xs" if "pPrevPage pg = Some v" for v
    using l(2) that by (cases "xs = []") auto
  show "v \<in> set ys" if "pNextPage pg = Some v" for v
    using l(1) that by (cases ys) auto
  show "(pPrevPage pg = None) = (xs = [])"
    using l(2) by auto
  show "p = Some a" if "xs = []"
    using assms(1) that by simp
qed

lemma dlist_bypass_other:
  assumes "dlist h None q zs"
    and "\<And>z. z \<in> set zs \<Longrightarrow> pPrevPage pg \<noteq> Some z \<and> pNextPage pg \<noteq> Some z"
    and "\<And>z. z \<in> set zs \<Longrightarrow> h' z = map_option (bypass pg z) (h z)"
  shows "dlist h' None q zs"
proof (rule dlist_frame[OF assms(1)])
  fix a assume "a \<in> set zs"
  then show "h' a = h a"
    using assms(2)[of a] assms(3)[of a] by (simp add: map_bypass_id)
qed

lemma contents_bypass:
  assumes "heap s' = (\<lambda>x. if x = page then Some (unlinked pg) else map_option (bypass pg x) (heap s x))"
    and "heap s page = Some pg"
  shows "contents s' = contents s" and "dom (heap s') = dom (heap s)"
proof -
  show "contents s' = contents s"
  proof
    fix x show "contents s' x = contents s x"
      using assms by (cases "heap s x") (auto simp: contents_def unlinked_def bypass_def)
  qed
  show "dom (heap s') = dom (heap s)"
    using assms by (auto simp: dom_def split: if_splits)
qed

text \<open>Unlinking a page of one list, seen on the store alone.\<close>

lemma dlist_unlink_in:
  assumes d: "dlist h None p (xs @ a # ys)" and dist: "distinct (xs @ a # ys)"
    and pg: "h a = Some pg"
    and h': "\<And>x. x \<noteq> a \<Longrightarrow> h' x = map_option (bypass pg x) (h x)"
  shows "dlist h' None (if xs = [] then pNextPage pg else p) (remove1 a (xs @ a # ys))"
proof -
  have r: "remove1 a (xs @ a # ys) = xs @ ys"
    using dist by (simp add: remove1_append)
  have fr: "h' x = map_option (bypass pg x) (h x)" if "x \<in> set (xs @ ys)" for x
  proof -
    have "x \<noteq> a" using that dist by auto
    then show ?thesis by (rule h')
  qed
  have "dlist h' None (if xs = [] then pNextPage pg else p) (xs @ ys)"
    by (rule dlist_unlink[OF d dist pg]) (use fr in simp_all)
  then show ?thesis by (simp only: r)
qed

lemma UnlinkPage_core:
  assumes d: "dlist (heap s) None p (xs @ page # ys)" and dist: "distinct (xs @ page # ys)"
  shows "\<exists>s' pg. UnlinkPage page s = Inr s' \<and> heap s page = Some pg \<and>
      heap s' = (\<lambda>x. if x = page then Some (unlinked pg) else map_option (bypass pg x) (heap s x)) \<and>
      m_unusedPages s' =
        (if xs = [] \<and> m_unusedPages s = Some page then pNextPage pg else m_unusedPages s) \<and>
      m_usedPages s' =
        (if xs = [] \<and> m_unusedPages s \<noteq> Some page \<and> m_usedPages s = Some page
         then pNextPage pg else m_usedPages s) \<and>
      m_pendingPages s' =
        (if xs = [] \<and> m_unusedPages s \<noteq> Some page \<and> m_usedPages s \<noteq> Some page \<and>
            m_pendingPages s = Some page
         then pNextPage pg else m_pendingPages s) \<and>
      counters s' = counters s \<and>
      (\<forall>v. pPrevPage pg = Some v \<longrightarrow> v \<in> set xs) \<and>
      (\<forall>v. pNextPage pg = Some v \<longrightarrow> v \<in> set ys) \<and>
      dlist (heap s') None (if xs = [] then pNextPage pg else p) (xs @ ys)"
proof -
  obtain pg where pg: "heap s page = Some pg"
    using dlist_dom[OF d, of page] by auto
  note nb = dlist_neighbours[OF d pg]
  have dom: "heap s v \<noteq> None" if "v \<in> set (xs @ page # ys)" for v
    using dlist_dom[OF d that] by auto
  have p1: "v \<noteq> page \<and> heap s v \<noteq> None \<and> pNextPage pg \<noteq> Some v" if "pPrevPage pg = Some v" for v
  proof -
    have "v \<in> set xs" using nb(1) that by simp
    then show ?thesis using dist dom[of v] nb(2)[of v] by auto
  qed
  have p2: "v \<noteq> page \<and> heap s v \<noteq> None" if "pNextPage pg = Some v" for v
  proof -
    have "v \<in> set ys" using nb(2) that by simp
    then show ?thesis using dist dom[of v] by auto
  qed
  from UnlinkPage_state[OF pg p1 p2] obtain s' where s':
    "UnlinkPage page s = Inr s'"
    "heap s' = (\<lambda>x. if x = page then Some (unlinked pg) else map_option (bypass pg x) (heap s x))"
    "m_unusedPages s' =
        (if pPrevPage pg = None \<and> m_unusedPages s = Some page then pNextPage pg
         else m_unusedPages s)"
    "m_usedPages s' =
        (if pPrevPage pg = None \<and> m_unusedPages s \<noteq> Some page \<and> m_usedPages s = Some page
         then pNextPage pg else m_usedPages s)"
    "m_pendingPages s' =
        (if pPrevPage pg = None \<and> m_unusedPages s \<noteq> Some page \<and> m_usedPages s \<noteq> Some page \<and>
            m_pendingPages s = Some page
         then pNextPage pg else m_pendingPages s)"
    "counters s' = counters s"
    by blast
  have "dlist (heap s') None (if xs = [] then pNextPage pg else p) (remove1 page (xs @ page # ys))"
    by (rule dlist_unlink_in[OF d dist pg]) (simp add: s'(2))
  moreover have "remove1 page (xs @ page # ys) = xs @ ys"
    using dist by (simp add: remove1_append)
  ultimately have dl: "dlist (heap s') None (if xs = [] then pNextPage pg else p) (xs @ ys)"
    by simp
  show ?thesis
    using s' pg dl nb(1,2) by (simp add: nb(3))
qed

lemma dlist_unlink_other:
  assumes d: "dlist (heap s) None q zs"
    and h': "heap s' = (\<lambda>x. if x = page then Some (unlinked pg) else map_option (bypass pg x) (heap s x))"
    and disj: "page \<notin> set zs"
    and nb: "\<And>v. pPrevPage pg = Some v \<Longrightarrow> v \<notin> set zs" "\<And>v. pNextPage pg = Some v \<Longrightarrow> v \<notin> set zs"
  shows "dlist (heap s') None q zs"
proof (rule dlist_bypass_other[OF d, where pg=pg])
  fix z assume z: "z \<in> set zs"
  show "pPrevPage pg \<noteq> Some z \<and> pNextPage pg \<noteq> Some z"
    using nb z by blast
  show "heap s' z = map_option (bypass pg z) (heap s z)"
    using z disj by (auto simp: h')
qed

lemma remove1_notin: "a \<notin> set zs \<Longrightarrow> remove1 a zs = zs"
  by (rule remove1_idem)

lemma UnlinkPage_lists:
  assumes L: "lists s U S P" and mem: "page \<in> set (U @ S @ P)"
  shows "\<exists>s' pg. UnlinkPage page s = Inr s' \<and> heap s page = Some pg \<and>
      heap s' page = Some (unlinked pg) \<and>
      lists s' (remove1 page U) (remove1 page S) (remove1 page P) \<and>
      contents s' = contents s \<and> counters s' = counters s \<and> dom (heap s') = dom (heap s)"
proof -
  from L have dU: "dlist (heap s) None (m_unusedPages s) U"
    and dS: "dlist (heap s) None (m_usedPages s) S"
    and dP: "dlist (heap s) None (m_pendingPages s) P"
    and dist: "distinct (U @ S @ P)"
    by (simp_all add: lists_def)
  note hU = dlist_head[OF dU] and hS = dlist_head[OF dS] and hP = dlist_head[OF dP]
  from mem consider (U) "page \<in> set U" | (S) "page \<in> set S" | (P) "page \<in> set P"
    by auto
  then show ?thesis
  proof cases
    case U
    then obtain xs ys where sp: "U = xs @ page # ys"
      by (auto dest: split_list)
    have dz: "distinct (xs @ page # ys)" using dist sp by auto
    from UnlinkPage_core[OF dU[unfolded sp] dz] obtain s' pg where s':
      "UnlinkPage page s = Inr s'" "heap s page = Some pg"
      "heap s' = (\<lambda>x. if x = page then Some (unlinked pg) else map_option (bypass pg x) (heap s x))"
      "m_unusedPages s' =
        (if xs = [] \<and> m_unusedPages s = Some page then pNextPage pg else m_unusedPages s)"
      "m_usedPages s' =
        (if xs = [] \<and> m_unusedPages s \<noteq> Some page \<and> m_usedPages s = Some page
         then pNextPage pg else m_usedPages s)"
      "m_pendingPages s' =
        (if xs = [] \<and> m_unusedPages s \<noteq> Some page \<and> m_usedPages s \<noteq> Some page \<and>
            m_pendingPages s = Some page
         then pNextPage pg else m_pendingPages s)"
      "counters s' = counters s"
      and nb: "\<And>v. pPrevPage pg = Some v \<Longrightarrow> v \<in> set xs"
        "\<And>v. pNextPage pg = Some v \<Longrightarrow> v \<in> set ys"
      and dl: "dlist (heap s') None (if xs = [] then pNextPage pg else m_unusedPages s) (xs @ ys)"
      by blast
    have notS: "page \<notin> set S" and notP: "page \<notin> set P"
      using dist U by auto
    have heads: "m_unusedPages s' = (if xs = [] then pNextPage pg else m_unusedPages s)"
      "m_usedPages s' = m_usedPages s" "m_pendingPages s' = m_pendingPages s"
      using s'(4,5,6) hU sp by (auto split: list.splits)
    have 1: "dlist (heap s') None (m_unusedPages s') (remove1 page U)"
      using dl dz by (simp add: heads sp remove1_append)
    have 2: "dlist (heap s') None (m_usedPages s') (remove1 page S)"
      unfolding heads remove1_notin[OF notS]
      by (rule dlist_unlink_other[OF dS s'(3) notS]) (use nb dist sp in auto)
    have 3: "dlist (heap s') None (m_pendingPages s') (remove1 page P)"
      unfolding heads remove1_notin[OF notP]
      by (rule dlist_unlink_other[OF dP s'(3) notP]) (use nb dist sp in auto)
    have 4: "distinct (remove1 page U @ remove1 page S @ remove1 page P)"
      using dist by (auto simp: distinct_remove1 dest: notin_set_remove1)
    show ?thesis
      using s'(1,2,7) 1 2 3 4 contents_bypass[OF s'(3) s'(2)]
      by (simp add: lists_def s'(3))
  next
    case S
    then obtain xs ys where sp: "S = xs @ page # ys"
      by (auto dest: split_list)
    have dz: "distinct (xs @ page # ys)" using dist sp by auto
    from UnlinkPage_core[OF dS[unfolded sp] dz] obtain s' pg where s':
      "UnlinkPage page s = Inr s'" "heap s page = Some pg"
      "heap s' = (\<lambda>x. if x = page then Some (unlinked pg) else map_option (bypass pg x) (heap s x))"
      "m_unusedPages s' =
        (if xs = [] \<and> m_unusedPages s = Some page then pNextPage pg else m_unusedPages s)"
      "m_usedPages s' =
        (if xs = [] \<and> m_unusedPages s \<noteq> Some page \<and> m_usedPages s = Some page
         then pNextPage pg else m_usedPages s)"
      "m_pendingPages s' =
        (if xs = [] \<and> m_unusedPages s \<noteq> Some page \<and> m_usedPages s \<noteq> Some page \<and>
            m_pendingPages s = Some page
         then pNextPage pg else m_pendingPages s)"
      "counters s' = counters s"
      and nb: "\<And>v. pPrevPage pg = Some v \<Longrightarrow> v \<in> set xs"
        "\<And>v. pNextPage pg = Some v \<Longrightarrow> v \<in> set ys"
      and dl: "dlist (heap s') None (if xs = [] then pNextPage pg else m_usedPages s) (xs @ ys)"
      by blast
    have notU: "page \<notin> set U" and notP: "page \<notin> set P"
      using dist S by auto
    have "m_unusedPages s \<noteq> Some page"
      using hU notU by (auto split: list.splits)
    then have heads: "m_usedPages s' = (if xs = [] then pNextPage pg else m_usedPages s)"
      "m_unusedPages s' = m_unusedPages s" "m_pendingPages s' = m_pendingPages s"
      using s'(4,5,6) hS sp by (auto split: list.splits)
    have 1: "dlist (heap s') None (m_usedPages s') (remove1 page S)"
      using dl dz by (simp add: heads sp remove1_append)
    have 2: "dlist (heap s') None (m_unusedPages s') (remove1 page U)"
      unfolding heads remove1_notin[OF notU]
      by (rule dlist_unlink_other[OF dU s'(3) notU]) (use nb dist sp in auto)
    have 3: "dlist (heap s') None (m_pendingPages s') (remove1 page P)"
      unfolding heads remove1_notin[OF notP]
      by (rule dlist_unlink_other[OF dP s'(3) notP]) (use nb dist sp in auto)
    have 4: "distinct (remove1 page U @ remove1 page S @ remove1 page P)"
      using dist by (auto simp: distinct_remove1 dest: notin_set_remove1)
    show ?thesis
      using s'(1,2,7) 1 2 3 4 contents_bypass[OF s'(3) s'(2)]
      by (simp add: lists_def s'(3))
  next
    case P
    then obtain xs ys where sp: "P = xs @ page # ys"
      by (auto dest: split_list)
    have dz: "distinct (xs @ page # ys)" using dist sp by auto
    from UnlinkPage_core[OF dP[unfolded sp] dz] obtain s' pg where s':
      "UnlinkPage page s = Inr s'" "heap s page = Some pg"
      "heap s' = (\<lambda>x. if x = page then Some (unlinked pg) else map_option (bypass pg x) (heap s x))"
      "m_unusedPages s' =
        (if xs = [] \<and> m_unusedPages s = Some page then pNextPage pg else m_unusedPages s)"
      "m_usedPages s' =
        (if xs = [] \<and> m_unusedPages s \<noteq> Some page \<and> m_usedPages s = Some page
         then pNextPage pg else m_usedPages s)"
      "m_pendingPages s' =
        (if xs = [] \<and> m_unusedPages s \<noteq> Some page \<and> m_usedPages s \<noteq> Some page \<and>
            m_pendingPages s = Some page
         then pNextPage pg else m_pendingPages s)"
      "counters s' = counters s"
      and nb: "\<And>v. pPrevPage pg = Some v \<Longrightarrow> v \<in> set xs"
        "\<And>v. pNextPage pg = Some v \<Longrightarrow> v \<in> set ys"
      and dl: "dlist (heap s') None (if xs = [] then pNextPage pg else m_pendingPages s) (xs @ ys)"
      by blast
    have notU: "page \<notin> set U" and notS: "page \<notin> set S"
      using dist P by auto
    have "m_unusedPages s \<noteq> Some page" "m_usedPages s \<noteq> Some page"
      using hU notU hS notS by (auto split: list.splits)
    then have heads: "m_pendingPages s' = (if xs = [] then pNextPage pg else m_pendingPages s)"
      "m_unusedPages s' = m_unusedPages s" "m_usedPages s' = m_usedPages s"
      using s'(4,5,6) hP sp by (auto split: list.splits)
    have 1: "dlist (heap s') None (m_pendingPages s') (remove1 page P)"
      using dl dz by (simp add: heads sp remove1_append)
    have 2: "dlist (heap s') None (m_unusedPages s') (remove1 page U)"
      unfolding heads remove1_notin[OF notU]
      by (rule dlist_unlink_other[OF dU s'(3) notU]) (use nb dist sp in auto)
    have 3: "dlist (heap s') None (m_usedPages s') (remove1 page S)"
      unfolding heads remove1_notin[OF notS]
      by (rule dlist_unlink_other[OF dS s'(3) notS]) (use nb dist sp in auto)
    have 4: "distinct (remove1 page U @ remove1 page S @ remove1 page P)"
      using dist by (auto simp: distinct_remove1 dest: notin_set_remove1)
    show ?thesis
      using s'(1,2,7) 1 2 3 4 contents_bypass[OF s'(3) s'(2)]
      by (simp add: lists_def s'(3))
  qed
qed

lemma dlist_cons:
  assumes d: "dlist h None p zs" and dist: "page \<notin> set zs" "distinct zs"
    and q: "h' page = Some q" "pPrevPage q = None" "pNextPage q = p"
    and h': "\<And>x. x \<in> set zs \<Longrightarrow>
       h' x = (if Some x = p then map_option (\<lambda>xp. xp\<lparr>pPrevPage := Some page\<rparr>) (h x) else h x)"
  shows "dlist h' None (Some page) (page # zs)"
proof (cases zs)
  case Nil
  then show ?thesis using d q by simp
next
  case (Cons x xs)
  with d obtain xpg where x: "p = Some x" "h x = Some xpg" "dlist h (Some x) (pNextPage xpg) xs"
    by (auto split: option.splits)
  have fr: "h' z = h z" if "z \<in> set xs" for z
    using h'[of z] that dist Cons x by auto
  have "dlist h' (Some x) (pNextPage xpg) xs"
    using x(3) fr by (rule dlist_frame)
  moreover have "h' x = Some (xpg\<lparr>pPrevPage := Some page\<rparr>)"
    using h'[of x] x Cons by simp
  ultimately show ?thesis
    using q x Cons by simp
qed

lemma LinkPage_state:
  assumes pg: "heap s page = Some pg" "pPrevPage pg = None" "pNextPage pg = None"
    and hd: "\<And>x. get_head l s = Some x \<Longrightarrow> x \<noteq> page \<and> (\<exists>xp. heap s x = Some xp \<and> pPrevPage xp = None)"
  shows "\<exists>s'. LinkPage dbg page l s = Inr s' \<and>
     heap s' = (\<lambda>y. if y = page then Some (pg\<lparr>pNextPage := get_head l s\<rparr>)
                    else if Some y = get_head l s
                      then map_option (\<lambda>xp. xp\<lparr>pPrevPage := Some page\<rparr>) (heap s y)
                    else heap s y) \<and>
     get_head l s' = Some page \<and> (\<forall>l'. l' \<noteq> l \<longrightarrow> get_head l' s' = get_head l' s) \<and>
     counters s' = counters s"
proof (cases "get_head l s")
  case None
  then show ?thesis
    using pg
    by (cases l)
      (auto simp: LinkPage_def bind_err_def assert_page_def assert_head_def set_pNextPage_def
        store_def set_head_def get_head_def counters_def fun_eq_iff split: list_head.splits)
next
  case (Some x)
  with hd obtain xp where x: "x \<noteq> page" "heap s x = Some xp" "pPrevPage xp = None"
    by blast
  show ?thesis
    using pg Some x
    by (cases l)
      (auto simp: LinkPage_def bind_err_def assert_page_def assert_head_def set_pNextPage_def
        set_pPrevPage_def store_def set_head_def get_head_def counters_def fun_eq_iff
        split: list_head.splits)
qed

lemma dlist_head_prev:
  "dlist h None p zs \<Longrightarrow> p = Some x \<Longrightarrow> x \<in> set zs \<and> (\<exists>xp. h x = Some xp \<and> pPrevPage xp = None)"
  by (cases zs) (auto split: option.splits)

lemma contents_link:
  assumes "heap s' = (\<lambda>y. if y = page then Some (pg\<lparr>pNextPage := nx\<rparr>)
                    else if Some y = p
                      then map_option (\<lambda>xp. xp\<lparr>pPrevPage := Some page\<rparr>) (heap s y)
                    else heap s y)"
    and "heap s page = Some pg"
  shows "contents s' = contents s" and "dom (heap s') = dom (heap s)"
proof -
  show "contents s' = contents s"
  proof
    fix x show "contents s' x = contents s x"
      using assms by (cases "heap s x") (auto simp: contents_def unlinked_def)
  qed
  show "dom (heap s') = dom (heap s)"
    using assms by (auto simp: dom_def split: if_splits)
qed

lemma LinkPage_lists:
  assumes L: "lists s U S P" and notin: "page \<notin> set (U @ S @ P)"
    and pg: "heap s page = Some pg" "pPrevPage pg = None" "pNextPage pg = None"
  shows "\<exists>s'. LinkPage dbg page l s = Inr s' \<and>
      lists s' (if l = UnusedPages then page # U else U) (if l = UsedPages then page # S else S)
        (if l = PendingPages then page # P else P) \<and>
      contents s' = contents s \<and> counters s' = counters s \<and> dom (heap s') = dom (heap s)"
proof -
  from L have dU: "dlist (heap s) None (m_unusedPages s) U"
    and dS: "dlist (heap s) None (m_usedPages s) S"
    and dP: "dlist (heap s) None (m_pendingPages s) P"
    and dist: "distinct (U @ S @ P)"
    by (simp_all add: lists_def)
  define Z where "Z = (case l of UnusedPages \<Rightarrow> U | UsedPages \<Rightarrow> S | PendingPages \<Rightarrow> P)"
  have dZ: "dlist (heap s) None (get_head l s) Z"
    using dU dS dP by (cases l) (simp_all add: Z_def get_head_def)
  have Zsub: "set Z \<subseteq> set (U @ S @ P)" and distZ: "distinct Z"
    using dist by (cases l; auto simp: Z_def)+
  have hd: "x \<noteq> page \<and> (\<exists>xp. heap s x = Some xp \<and> pPrevPage xp = None)"
    if "get_head l s = Some x" for x
    using dlist_head_prev[OF dZ that] Zsub notin by auto
  from LinkPage_state[OF pg hd, of l dbg] obtain s' where s':
    "LinkPage dbg page l s = Inr s'"
    "heap s' = (\<lambda>y. if y = page then Some (pg\<lparr>pNextPage := get_head l s\<rparr>)
                    else if Some y = get_head l s
                      then map_option (\<lambda>xp. xp\<lparr>pPrevPage := Some page\<rparr>) (heap s y)
                    else heap s y)"
    "get_head l s' = Some page" "\<And>l'. l' \<noteq> l \<Longrightarrow> get_head l' s' = get_head l' s"
    "counters s' = counters s"
    by blast
  have new: "dlist (heap s') None (Some page) (page # Z)"
    by (rule dlist_cons[OF dZ _ distZ, where q="pg\<lparr>pNextPage := get_head l s\<rparr>"])
      (use Zsub notin pg in \<open>auto simp: s'(2)\<close>)
  have other: "dlist (heap s') None q zs"
    if d: "dlist (heap s) None q zs" and sub: "set zs \<subseteq> set (U @ S @ P)"
      and disj: "set zs \<inter> set Z = {}" for q zs
  proof (rule dlist_frame[OF d])
    fix a assume a: "a \<in> set zs"
    have "a \<noteq> page" using a sub notin by auto
    moreover have "Some a \<noteq> get_head l s"
      using dlist_head_prev[OF dZ, of a] a disj by auto
    ultimately show "heap s' a = heap s a"
      by (simp add: s'(2))
  qed
  have d3: "distinct ((page # U) @ S @ P)" "distinct (U @ (page # S) @ P)"
    "distinct (U @ S @ (page # P))"
    using dist notin by auto
  have ?thesis if l: "l = UnusedPages"
  proof -
    have "dlist (heap s') None (m_usedPages s') S" "dlist (heap s') None (m_pendingPages s') P"
      using other[OF dS] other[OF dP] s'(4)[of UsedPages] s'(4)[of PendingPages] dist l
      by (auto simp: Z_def get_head_def)
    then show ?thesis
      using s' new d3(1) contents_link[OF s'(2) pg(1)] l
      by (simp add: lists_def Z_def get_head_def)
  qed
  moreover have ?thesis if l: "l = UsedPages"
  proof -
    have "dlist (heap s') None (m_unusedPages s') U" "dlist (heap s') None (m_pendingPages s') P"
      using other[OF dU] other[OF dP] s'(4)[of UnusedPages] s'(4)[of PendingPages] dist l
      by (auto simp: Z_def get_head_def)
    then show ?thesis
      using s' new d3(2) contents_link[OF s'(2) pg(1)] l
      by (simp add: lists_def Z_def get_head_def)
  qed
  moreover have ?thesis if l: "l = PendingPages"
  proof -
    have "dlist (heap s') None (m_unusedPages s') U" "dlist (heap s') None (m_usedPages s') S"
      using other[OF dU] other[OF dS] s'(4)[of UnusedPages] s'(4)[of UsedPages] dist l
      by (auto simp: Z_def get_head_def)
    then show ?thesis
      using s' new d3(3) contents_link[OF s'(2) pg(1)] l
      by (simp add: lists_def Z_def get_head_def)
  qed
  ultimately show ?thesis by (cases l) auto
qed

lemma lists_numPending [simp]: "lists (s\<lparr>m_numPending := n\<rparr>) U S P = lists s U S P"
  by (simp add: lists_def)

lemma contents_numPending [simp]: "contents (s\<lparr>m_numPending := n\<rparr>) = contents s"
  by (simp add: contents_def fun_eq_iff)

lemma contents_Some: "heap s a = Some pg \<Longrightarrow> contents s a = Some (unlinked pg)"
  by (simp add: contents_def)

lemma fence_passed_contents:
  "contents s' a = contents s a \<Longrightarrow> fence_passed s' c a = fence_passed s c a"
  by (cases "heap s a"; cases "heap s' a")
    (auto simp: fence_passed_def contents_def unlinked_def
      dest!: arg_cong[where f=mPendingFence])

lemma lists_store_data:
  assumes L: "lists s U S P" and pg: "heap s a = Some pg"
    and q: "pPrevPage q = pPrevPage pg" "pNextPage q = pNextPage pg"
  shows "lists (store a q s) U S P"
proof -
  have d: "dlist ((heap s)(a \<mapsto> q)) prv p zs" if "dlist (heap s) prv p zs" for prv p zs
    using that
  proof (induction zs arbitrary: prv p)
    case Nil
    then show ?case by simp
  next
    case (Cons z zs)
    then show ?case using pg q by (auto split: option.splits)
  qed
  show ?thesis
    using L d by (simp add: lists_def store_def)
qed

lemma ReleasePage_lists:
  assumes L: "lists s U S P" and mem: "page \<in> set P" and np: "dbg \<longrightarrow> 0 < m_numPending s"
  shows "\<exists>s'. ReleasePage dbg page s = Inr s' \<and>
      lists s' (page # U) S (remove1 page P) \<and>
      contents s' = (contents s)(page := map_option (\<lambda>q. q\<lparr>mOffset := 0\<rparr>) (contents s page)) \<and>
      counters s' = (m_increment s, m_numPending s - 1, m_totalPages s) \<and>
      dom (heap s') = dom (heap s)"
proof -
  let ?s0 = "s\<lparr>m_numPending := m_numPending s - 1\<rparr>"
  have dist: "distinct (U @ S @ P)" using L by (simp add: lists_def)
  have nU: "page \<notin> set U" and nS: "page \<notin> set S"
    using dist mem by auto
  from UnlinkPage_lists[of ?s0 U S P page] L mem obtain s1 pg where s1:
    "UnlinkPage page ?s0 = Inr s1" "heap s page = Some pg" "heap s1 page = Some (unlinked pg)"
    "lists s1 (remove1 page U) (remove1 page S) (remove1 page P)"
    "contents s1 = contents s" "counters s1 = counters ?s0" "dom (heap s1) = dom (heap s)"
    by auto
  have L1: "lists s1 U S (remove1 page P)"
    using s1(4) nU nS by (simp add: remove1_idem)
  have n1: "page \<notin> set (U @ S @ remove1 page P)"
    using nU nS dist by auto
  from LinkPage_lists[OF L1 n1 s1(3), of dbg UnusedPages] obtain s2 where s2:
    "LinkPage dbg page UnusedPages s1 = Inr s2" "lists s2 (page # U) S (remove1 page P)"
    "contents s2 = contents s1" "counters s2 = counters s1" "dom (heap s2) = dom (heap s1)"
    by (auto simp: unlinked_def)
  obtain pg2 where pg2: "heap s2 page = Some pg2"
    using s2(5) s1(3) by (metis domD domI)
  let ?s3 = "store page (pg2\<lparr>mOffset := 0\<rparr>) s2"
  have R: "ReleasePage dbg page s = Inr ?s3"
    using np s1(1) s2(1) pg2 by (auto simp: ReleasePage_def bind_err_def)
  have L3: "lists ?s3 (page # U) S (remove1 page P)"
    by (rule lists_store_data[OF s2(2) pg2]) simp_all
  have c3: "contents ?s3 = (contents s)(page := map_option (\<lambda>q. q\<lparr>mOffset := 0\<rparr>) (contents s page))"
  proof
    fix x
    have e: "contents s2 x = contents s x" using s2(3) s1(5) by simp
    show "contents ?s3 x =
        ((contents s)(page := map_option (\<lambda>q. q\<lparr>mOffset := 0\<rparr>) (contents s page))) x"
    proof (cases "x = page")
      case True
      have "unlinked pg2 = unlinked pg"
        using e True pg2 s1(2) by (simp add: contents_def)
      then have "unlinked (pg2\<lparr>mOffset := 0\<rparr>) = (unlinked pg)\<lparr>mOffset := 0\<rparr>"
        by (cases pg, cases pg2) (simp add: unlinked_def)
      then show ?thesis
        using True s1(2) by (simp add: contents_def store_def)
    next
      case False
      then show ?thesis using e by (simp add: contents_def store_def)
    qed
  qed
  have "counters ?s3 = (m_increment s, m_numPending s - 1, m_totalPages s)"
    using s2(4) s1(6) by (simp add: counters_def store_def)
  moreover have "dom (heap ?s3) = dom (heap s)"
    using s2(5) s1(7) pg2 by (auto simp: store_def)
  ultimately show ?thesis
    using R L3 c3 by blast
qed

lemma fence_passed_Some:
  "heap s a = Some pg \<Longrightarrow> fence_passed s c a = (mPendingFence pg \<le> c a)"
  by (simp add: fence_passed_def)

lemma RetirePendingPages_loop_lists:
  assumes "lists s U S (K @ rest)"
    and "dbg \<longrightarrow> (\<forall>a\<in>set rest. \<forall>pg. contents s a = Some pg \<longrightarrow> mPendingFence pg \<noteq> 0)"
    and "dbg \<longrightarrow> length (filter (fence_passed s c) rest) \<le> m_numPending s"
  shows "\<exists>s'. RetirePendingPages_loop dbg s (case rest of [] \<Rightarrow> None | a # _ \<Rightarrow> Some a) c
                 = Some (Inr s') \<and>
     lists s' (rev (filter (fence_passed s c) rest) @ U) S
       (K @ filter (\<lambda>a. \<not> fence_passed s c a) rest) \<and>
     contents s' = (\<lambda>a. if a \<in> set rest \<and> fence_passed s c a
                         then map_option (\<lambda>q. q\<lparr>mOffset := 0\<rparr>) (contents s a)
                         else contents s a) \<and>
     counters s' = (m_increment s, m_numPending s - length (filter (fence_passed s c) rest),
                    m_totalPages s) \<and>
     dom (heap s') = dom (heap s)"
  using assms
proof (induction rest arbitrary: s U K)
  case Nil
  then show ?case
    by (subst RetirePendingPages_loop.simps) (simp add: counters_def)
next
  case (Cons a rest)
  note L = Cons.prems(1)
  have dP: "dlist (heap s) None (m_pendingPages s) (K @ a # rest)"
    and dist: "distinct (U @ S @ K @ a # rest)"
    using L by (simp_all add: lists_def)
  obtain pg where pg: "heap s a = Some pg"
    using dlist_dom[OF dP, of a] by auto
  have nx: "pNextPage pg = (case rest of [] \<Rightarrow> None | y # _ \<Rightarrow> Some y)"
    by (rule dlist_links(1)[OF dP pg])
  have nz: "dbg \<longrightarrow> mPendingFence pg \<noteq> 0"
    using Cons.prems(2) pg by (auto simp: contents_def unlinked_def)
  have arest: "a \<notin> set rest" using dist by auto
  show ?case
  proof (cases "fence_passed s c a")
    case True
    then have ge: "mPendingFence pg \<le> c a"
      using pg by (simp add: fence_passed_Some)
    have np: "dbg \<longrightarrow> 0 < m_numPending s"
      using Cons.prems(3) True by auto
    from ReleasePage_lists[OF L _ np, of a] obtain s1 where s1:
      "ReleasePage dbg a s = Inr s1" "lists s1 (a # U) S (remove1 a (K @ a # rest))"
      "contents s1 = (contents s)(a := map_option (\<lambda>q. q\<lparr>mOffset := 0\<rparr>) (contents s a))"
      "counters s1 = (m_increment s, m_numPending s - 1, m_totalPages s)"
      "dom (heap s1) = dom (heap s)"
      by auto
    have rm: "remove1 a (K @ a # rest) = K @ rest"
      using dist by (simp add: remove1_append)
    have same: "contents s1 x = contents s x" if "x \<in> set rest" for x
      using that arest by (auto simp: s1(3))
    have fp: "fence_passed s1 c x = fence_passed s c x" if "x \<in> set rest" for x
      by (rule fence_passed_contents[OF same[OF that]])
    have f1: "filter (fence_passed s1 c) rest = filter (fence_passed s c) rest"
      and f2: "filter (\<lambda>a. \<not> fence_passed s1 c a) rest = filter (\<lambda>a. \<not> fence_passed s c a) rest"
      using fp by (auto intro: filter_cong)
    have c1: "m_numPending s1 = m_numPending s - 1" "m_increment s1 = m_increment s"
      "m_totalPages s1 = m_totalPages s"
      using s1(4) by (simp_all add: counters_def)
    have p2: "dbg \<longrightarrow> (\<forall>x\<in>set rest. \<forall>q. contents s1 x = Some q \<longrightarrow> mPendingFence q \<noteq> 0)"
      using Cons.prems(2) same by auto
    have p3: "dbg \<longrightarrow> length (filter (fence_passed s1 c) rest) \<le> m_numPending s1"
      using Cons.prems(3) True by (auto simp: f1 c1)
    from Cons.IH[OF s1(2)[unfolded rm] p2 p3] obtain s' where s':
      "RetirePendingPages_loop dbg s1 (case rest of [] \<Rightarrow> None | a # _ \<Rightarrow> Some a) c = Some (Inr s')"
      "lists s' (rev (filter (fence_passed s1 c) rest) @ a # U) S
         (K @ filter (\<lambda>a. \<not> fence_passed s1 c a) rest)"
      "contents s' = (\<lambda>a. if a \<in> set rest \<and> fence_passed s1 c a
                         then map_option (\<lambda>q. q\<lparr>mOffset := 0\<rparr>) (contents s1 a)
                         else contents s1 a)"
      "counters s' = (m_increment s1, m_numPending s1 - length (filter (fence_passed s1 c) rest),
                    m_totalPages s1)"
      "dom (heap s') = dom (heap s1)"
      by blast
    have run: "RetirePendingPages_loop dbg s (Some a) c = Some (Inr s')"
      by (subst RetirePendingPages_loop.simps) (use pg nz ge s1(1) s'(1) nx in \<open>simp add: Let_def\<close>)
    have cont: "contents s' = (\<lambda>x. if x \<in> set (a # rest) \<and> fence_passed s c x
                         then map_option (\<lambda>q. q\<lparr>mOffset := 0\<rparr>) (contents s x)
                         else contents s x)"
    proof
      fix x
      show "contents s' x = (if x \<in> set (a # rest) \<and> fence_passed s c x
                         then map_option (\<lambda>q. q\<lparr>mOffset := 0\<rparr>) (contents s x)
                         else contents s x)"
        using True arest fp[of x] by (auto simp: s'(3) s1(3))
    qed
    show ?thesis
      using run s'(2,4,5) s1(5) cont True
      by (simp add: f1 f2 c1)
  next
    case False
    then have lt: "\<not> mPendingFence pg \<le> c a"
      using pg by (simp add: fence_passed_Some)
    have L': "lists s U S ((K @ [a]) @ rest)"
      using L by simp
    have p2: "dbg \<longrightarrow> (\<forall>x\<in>set rest. \<forall>q. contents s x = Some q \<longrightarrow> mPendingFence q \<noteq> 0)"
      using Cons.prems(2) by auto
    have p3: "dbg \<longrightarrow> length (filter (fence_passed s c) rest) \<le> m_numPending s"
      using Cons.prems(3) False by auto
    from Cons.IH[OF L' p2 p3] obtain s' where s':
      "RetirePendingPages_loop dbg s (case rest of [] \<Rightarrow> None | a # _ \<Rightarrow> Some a) c = Some (Inr s')"
      "lists s' (rev (filter (fence_passed s c) rest) @ U) S
         ((K @ [a]) @ filter (\<lambda>a. \<not> fence_passed s c a) rest)"
      "contents s' = (\<lambda>a. if a \<in> set rest \<and> fence_passed s c a
                         then map_option (\<lambda>q. q\<lparr>mOffset := 0\<rparr>) (contents s a)
                         else contents s a)"
      "counters s' = (m_increment s, m_numPending s - length (filter (fence_passed s c) rest),
                    m_totalPages s)"
      "dom (heap s') = dom (heap s)"
      by blast
    have run: "RetirePendingPages_loop dbg s (Some a) c = Some (Inr s')"
      by (subst RetirePendingPages_loop.simps) (use pg nz lt s'(1) nx in \<open>simp add: Let_def\<close>)
    have cont: "contents s' = (\<lambda>x. if x \<in> set (a # rest) \<and> fence_passed s c x
                         then map_option (\<lambda>q. q\<lparr>mOffset := 0\<rparr>) (contents s x)
                         else contents s x)"
      using False by (auto simp: s'(3) fun_eq_iff)
    show ?thesis
      using run s'(2,4,5) cont False by simp
  qed
qed

section \<open>Retiring pages\<close>

lemma arena_example: "arena example_arena [10] [11, 12] [13, 14]"
  by (auto simp: arena_def lists_def example_arena_def example_page_def)

text \<open>
  Claim C1. In a state whose three lists are \<open>U\<close> (unused), \<open>S\<close> (used) and \<open>P\<close>
  (pending), \<open>RetirePendingPages\<close> returns, and a page of the pending list is moved to
  the unused list if and only if the value its fence reports has reached its
  \<^verbatim>\<open>mPendingFence\<close>: such a page leaves \<open>P\<close>, its cursor becomes 0 and it is pushed on
  the head of the unused list (so the pages moved stand in front of \<open>U\<close>, the last one
  moved first). Every other page keeps its place and all its data. (In a debug build
  the call asserts that \<^verbatim>\<open>m_numPending\<close> is positive and the fence values nonzero;
  the hypothesis \<open>D\<close> says that they are.)
\<close>

theorem RetirePendingPages_correct:
  assumes A: "arena s U S P"
    and D: "dbg \<longrightarrow> m_numPending s = length P \<and>
              (\<forall>a\<in>set P. \<forall>pg. heap s a = Some pg \<longrightarrow> mPendingFence pg \<noteq> 0)"
  shows "\<exists>s'. RetirePendingPages dbg completed s = Some (Inr s') \<and>
      arena s' (rev (filter (fence_passed s completed) P) @ U) S
        (filter (\<lambda>a. \<not> fence_passed s completed a) P) \<and>
      (\<forall>a\<in>set P. (a \<in> set (rev (filter (fence_passed s completed) P) @ U))
                   = fence_passed s completed a) \<and>
      (\<forall>a. contents s' a =
         (if a \<in> set P \<and> fence_passed s completed a
          then map_option (\<lambda>q. q\<lparr>mOffset := 0\<rparr>) (contents s a) else contents s a)) \<and>
      counters s' =
        (m_increment s, m_numPending s - length (filter (fence_passed s completed) P),
         m_totalPages s)"
proof -
  from A have L: "lists s U S ([] @ P)" and dom: "dom (heap s) = set (U @ S @ P)"
    by (simp_all add: arena_def)
  have dist: "distinct (U @ S @ P)" using L by (simp add: lists_def)
  have hd: "m_pendingPages s = (case P of [] \<Rightarrow> None | a # _ \<Rightarrow> Some a)"
    using L dlist_head[of "heap s" None "m_pendingPages s" P] by (simp add: lists_def)
  have p2: "dbg \<longrightarrow> (\<forall>a\<in>set P. \<forall>pg. contents s a = Some pg \<longrightarrow> mPendingFence pg \<noteq> 0)"
    using D by (auto simp: contents_def unlinked_def)
  have p3: "dbg \<longrightarrow> length (filter (fence_passed s completed) P) \<le> m_numPending s"
    using D by auto
  from RetirePendingPages_loop_lists[OF L p2 p3] obtain s' where s':
    "RetirePendingPages_loop dbg s (case P of [] \<Rightarrow> None | a # _ \<Rightarrow> Some a) completed
       = Some (Inr s')"
    "lists s' (rev (filter (fence_passed s completed) P) @ U) S
       ([] @ filter (\<lambda>a. \<not> fence_passed s completed a) P)"
    "contents s' = (\<lambda>a. if a \<in> set P \<and> fence_passed s completed a
                         then map_option (\<lambda>q. q\<lparr>mOffset := 0\<rparr>) (contents s a)
                         else contents s a)"
    "counters s' = (m_increment s, m_numPending s - length (filter (fence_passed s completed) P),
                    m_totalPages s)"
    "dom (heap s') = dom (heap s)"
    by blast
  have "dom (heap s') = set ((rev (filter (fence_passed s completed) P) @ U) @ S @
      filter (\<lambda>a. \<not> fence_passed s completed a) P)"
    using s'(5) dom by auto
  then have "arena s' (rev (filter (fence_passed s completed) P) @ U) S
        (filter (\<lambda>a. \<not> fence_passed s completed a) P)"
    using s'(2) by (simp add: arena_def)
  moreover have "\<forall>a\<in>set P. (a \<in> set (rev (filter (fence_passed s completed) P) @ U))
                   = fence_passed s completed a"
    using dist by auto
  ultimately show ?thesis
    using s'(1,3,4) by (simp add: RetirePendingPages_def hd)
qed

text \<open>
  In the example the fences report 3: page 14 (waiting for 2) is retired, page 13
  (waiting for 5) stays pending.
\<close>

theorem RetirePendingPages_correct_witness:
  "arena example_arena [10] [11, 12] [13, 14] \<and>
   m_numPending example_arena = length [13::addr, 14] \<and>
   (\<exists>s'. RetirePendingPages True (\<lambda>a. 3) example_arena = Some (Inr s') \<and>
         arena s' [14, 10] [11, 12] [13] \<and>
         contents s' 14 = Some (example_page None None 2 0 0) \<and>
         contents s' 13 = contents example_arena 13 \<and>
         counters s' = (65536, 1, 5))"
proof -
  have D: "True \<longrightarrow> m_numPending example_arena = length [13::addr, 14] \<and>
      (\<forall>a\<in>set [13, 14]. \<forall>pg. heap example_arena a = Some pg \<longrightarrow> mPendingFence pg \<noteq> 0)"
    by (simp add: example_arena_def example_page_def)
  have f: "fence_passed example_arena (\<lambda>a. 3) 13 = False"
    "fence_passed example_arena (\<lambda>a. 3) 14 = True"
    by (simp_all add: fence_passed_def example_arena_def example_page_def)
  have c: "contents example_arena 14 = Some (example_page None None 2 200 0)"
    by (simp add: contents_def unlinked_def example_arena_def example_page_def)
  from RetirePendingPages_correct[OF arena_example D, of "\<lambda>a. 3"] obtain s' where s':
    "RetirePendingPages True (\<lambda>a. 3) example_arena = Some (Inr s')"
    "arena s' [14, 10] [11, 12] [13]"
    "\<forall>a. contents s' a =
         (if a \<in> set [13, 14] \<and> fence_passed example_arena (\<lambda>a. 3) a
          then map_option (\<lambda>q. q\<lparr>mOffset := 0\<rparr>) (contents example_arena a)
          else contents example_arena a)"
    "counters s' = (m_increment example_arena, m_numPending example_arena - 1,
       m_totalPages example_arena)"
    by (auto simp: f)
  have "contents s' 14 = Some (example_page None None 2 0 0)"
    using s'(3) by (simp add: f c example_page_def)
  moreover have "contents s' 13 = contents example_arena 13"
    using s'(3) by (simp add: f)
  moreover have "counters s' = (65536, 1, 5)"
    using s'(4) by (simp add: example_arena_def)
  moreover have "m_numPending example_arena = length [13::addr, 14]"
    by (simp add: example_arena_def)
  ultimately show ?thesis
    using s'(1,2) arena_example by blast
qed

section \<open>Committing pages\<close>

lemma push_state:
  assumes hd: "\<And>r. p = Some r \<Longrightarrow> r \<noteq> a \<and> heap s r \<noteq> None"
  shows "\<exists>s2. bind_err (Inr (store a q s))
            (\<lambda>s1. case p of Some r \<Rightarrow> set_pPrevPage r (Some a) s1 | None \<Rightarrow> Inr s1) = Inr s2 \<and>
     heap s2 = (\<lambda>y. if y = a then Some q
                    else if Some y = p
                      then map_option (\<lambda>xp. xp\<lparr>pPrevPage := Some a\<rparr>) (heap s y)
                    else heap s y) \<and>
     m_unusedPages s2 = m_unusedPages s \<and> m_usedPages s2 = m_usedPages s \<and>
     m_pendingPages s2 = m_pendingPages s \<and> counters s2 = counters s"
proof (cases p)
  case None
  then show ?thesis
    by (auto simp: bind_err_def store_def counters_def fun_eq_iff)
next
  case (Some r)
  with hd obtain rp where "r \<noteq> a" "heap s r = Some rp" by auto
  then show ?thesis
    using Some
    by (auto simp: bind_err_def store_def set_pPrevPage_def counters_def fun_eq_iff)
qed

lemma unreferenced_heap: "heap s' a = heap s a \<Longrightarrow> unreferenced s' a = unreferenced s a"
  by (simp add: unreferenced_def)

lemma FenceCommittedPages_loop_lists:
  assumes "slist (heap s) page rest" and "dlist (heap s) None ready R"
    and "dlist (heap s) None unready N" and "distinct (rest @ R @ N)"
  shows "\<exists>s' ready' unready'.
     FenceCommittedPages_loop s page n ready unready =
       Some (Inr (s', n + of_nat (length (filter (unreferenced s) rest)), ready', unready')) \<and>
     dlist (heap s') None ready' (rev (filter (unreferenced s) rest) @ R) \<and>
     dlist (heap s') None unready' (rev (filter (\<lambda>a. \<not> unreferenced s a) rest) @ N) \<and>
     (\<forall>x. x \<notin> set (rest @ R @ N) \<longrightarrow> heap s' x = heap s x) \<and>
     contents s' = (\<lambda>x. if x \<in> set rest \<and> unreferenced s x
                         then map_option (\<lambda>q. q\<lparr>mPendingFence := mPendingFence q + 1\<rparr>) (contents s x)
                         else contents s x) \<and>
     m_unusedPages s' = m_unusedPages s \<and> m_usedPages s' = m_usedPages s \<and>
     m_pendingPages s' = m_pendingPages s \<and> counters s' = counters s \<and>
     dom (heap s') = dom (heap s)"
  using assms
proof (induction rest arbitrary: s page n ready unready R N)
  case Nil
  then show ?case
    by (subst FenceCommittedPages_loop.simps) simp
next
  case (Cons a rest)
  from Cons.prems(1) obtain pg where pg: "page = Some a" "heap s a = Some pg"
    "slist (heap s) (pNextPage pg) rest"
    by (auto split: option.splits)
  note dist = Cons.prems(4)
  have arest: "a \<notin> set rest" "a \<notin> set R" "a \<notin> set N" using dist by auto
  show ?case
  proof (cases "mRefCount pg = 0")
    case True
    let ?q = "pg\<lparr>pPrevPage := None, mPendingFence := mPendingFence pg + 1, pNextPage := ready\<rparr>"
    have hd: "r \<noteq> a \<and> heap s r \<noteq> None" if "ready = Some r" for r
    proof -
      have "r \<in> set R" using Cons.prems(2) that by (cases R) auto
      then show ?thesis using arest dlist_dom[OF Cons.prems(2), of r] by auto
    qed
    from push_state[OF hd, of ready ?q] obtain s2 where s2:
      "bind_err (Inr (store a ?q s))
         (\<lambda>s1. case ready of Some r \<Rightarrow> set_pPrevPage r (Some a) s1 | None \<Rightarrow> Inr s1) = Inr s2"
      "heap s2 = (\<lambda>y. if y = a then Some ?q
                    else if Some y = ready
                      then map_option (\<lambda>xp. xp\<lparr>pPrevPage := Some a\<rparr>) (heap s y)
                    else heap s y)"
      "m_unusedPages s2 = m_unusedPages s" "m_usedPages s2 = m_usedPages s"
      "m_pendingPages s2 = m_pendingPages s" "counters s2 = counters s"
      by blast
    have ready_in: "Some y = ready \<Longrightarrow> y \<in> set R" for y
      using Cons.prems(2) by (cases R) auto
    have same: "heap s2 x = heap s x" if "x \<notin> set (a # R)" for x
      using that ready_in[of x] by (auto simp: s2(2))
    have same_rest: "heap s2 x = heap s x" if "x \<in> set rest" for x
      using same[of x] that dist by auto
    have same_N: "heap s2 x = heap s x" if "x \<in> set N" for x
      using same[of x] that dist by auto
    have 1: "slist (heap s2) (pNextPage pg) rest"
      by (rule slist_frame[OF pg(3)]) (rule same_rest)
    have 2: "dlist (heap s2) None (Some a) (a # R)"
      by (rule dlist_cons[OF Cons.prems(2), where q="?q"]) (use arest dist in \<open>auto simp: s2(2)\<close>)
    have 3: "dlist (heap s2) None unready N"
      by (rule dlist_frame[OF Cons.prems(3)]) (rule same_N)
    have 4: "distinct (rest @ (a # R) @ N)" using dist by auto
    from Cons.IH[OF 1 2 3 4, of "n + 1"] obtain s' ready' unready' where s':
      "FenceCommittedPages_loop s2 (pNextPage pg) (n + 1) (Some a) unready =
         Some (Inr (s', n + 1 + of_nat (length (filter (unreferenced s2) rest)), ready', unready'))"
      "dlist (heap s') None ready' (rev (filter (unreferenced s2) rest) @ a # R)"
      "dlist (heap s') None unready' (rev (filter (\<lambda>a. \<not> unreferenced s2 a) rest) @ N)"
      "\<forall>x. x \<notin> set (rest @ (a # R) @ N) \<longrightarrow> heap s' x = heap s2 x"
      "contents s' = (\<lambda>x. if x \<in> set rest \<and> unreferenced s2 x
                         then map_option (\<lambda>q. q\<lparr>mPendingFence := mPendingFence q + 1\<rparr>) (contents s2 x)
                         else contents s2 x)"
      "m_unusedPages s' = m_unusedPages s2" "m_usedPages s' = m_usedPages s2"
      "m_pendingPages s' = m_pendingPages s2" "counters s' = counters s2"
      "dom (heap s') = dom (heap s2)"
      by blast
    have ur: "unreferenced s2 x = unreferenced s x" if "x \<in> set rest" for x
      by (rule unreferenced_heap) (rule same_rest[OF that])
    have f1: "filter (unreferenced s2) rest = filter (unreferenced s) rest"
      and f2: "filter (\<lambda>a. \<not> unreferenced s2 a) rest = filter (\<lambda>a. \<not> unreferenced s a) rest"
      using ur by (auto intro: filter_cong)
    have ua: "unreferenced s a" using True pg by (simp add: unreferenced_def)
    have run: "FenceCommittedPages_loop s page n ready unready =
         Some (Inr (s', n + of_nat (length (filter (unreferenced s) (a # rest))), ready', unready'))"
      by (subst FenceCommittedPages_loop.simps)
        (use pg True s2(1) s'(1) ua in \<open>simp add: Let_def f1 add.assoc\<close>)
    have c2: "contents s2 x = (if x = a
        then map_option (\<lambda>q. q\<lparr>mPendingFence := mPendingFence q + 1\<rparr>) (contents s x)
        else contents s x)" for x
      using pg by (cases "heap s x") (auto simp: contents_def s2(2) unlinked_def)
    have cont: "contents s' = (\<lambda>x. if x \<in> set (a # rest) \<and> unreferenced s x
                         then map_option (\<lambda>q. q\<lparr>mPendingFence := mPendingFence q + 1\<rparr>) (contents s x)
                         else contents s x)"
    proof
      fix x
      show "contents s' x = (if x \<in> set (a # rest) \<and> unreferenced s x
                         then map_option (\<lambda>q. q\<lparr>mPendingFence := mPendingFence q + 1\<rparr>) (contents s x)
                         else contents s x)"
        using ua arest ur[of x] by (auto simp: s'(5) c2)
    qed
    have fr: "\<forall>x. x \<notin> set ((a # rest) @ R @ N) \<longrightarrow> heap s' x = heap s x"
      using s'(4) same by auto
    have dm: "dom (heap s') = dom (heap s)"
      using s'(10) pg by (auto simp: s2(2) dom_def split: if_splits)
    show ?thesis
      using run s'(2,3,6-9) s2(3-6) cont fr dm ua
      by (simp add: f1 f2)
  next
    case False
    let ?q = "pg\<lparr>pPrevPage := None, pNextPage := unready\<rparr>"
    have hd: "r \<noteq> a \<and> heap s r \<noteq> None" if "unready = Some r" for r
    proof -
      have "r \<in> set N" using Cons.prems(3) that by (cases N) auto
      then show ?thesis using arest dlist_dom[OF Cons.prems(3), of r] by auto
    qed
    from push_state[OF hd, of unready ?q] obtain s2 where s2:
      "bind_err (Inr (store a ?q s))
         (\<lambda>s1. case unready of Some r \<Rightarrow> set_pPrevPage r (Some a) s1 | None \<Rightarrow> Inr s1) = Inr s2"
      "heap s2 = (\<lambda>y. if y = a then Some ?q
                    else if Some y = unready
                      then map_option (\<lambda>xp. xp\<lparr>pPrevPage := Some a\<rparr>) (heap s y)
                    else heap s y)"
      "m_unusedPages s2 = m_unusedPages s" "m_usedPages s2 = m_usedPages s"
      "m_pendingPages s2 = m_pendingPages s" "counters s2 = counters s"
      by blast
    have unready_in: "Some y = unready \<Longrightarrow> y \<in> set N" for y
      using Cons.prems(3) by (cases N) auto
    have same: "heap s2 x = heap s x" if "x \<notin> set (a # N)" for x
      using that unready_in[of x] by (auto simp: s2(2))
    have same_rest: "heap s2 x = heap s x" if "x \<in> set rest" for x
      using same[of x] that dist by auto
    have same_R: "heap s2 x = heap s x" if "x \<in> set R" for x
      using same[of x] that dist by auto
    have 1: "slist (heap s2) (pNextPage pg) rest"
      by (rule slist_frame[OF pg(3)]) (rule same_rest)
    have 2: "dlist (heap s2) None (Some a) (a # N)"
      by (rule dlist_cons[OF Cons.prems(3), where q="?q"]) (use arest dist in \<open>auto simp: s2(2)\<close>)
    have 3: "dlist (heap s2) None ready R"
      by (rule dlist_frame[OF Cons.prems(2)]) (rule same_R)
    have 4: "distinct (rest @ R @ a # N)" using dist by auto
    from Cons.IH[OF 1 3 2 4, of n] obtain s' ready' unready' where s':
      "FenceCommittedPages_loop s2 (pNextPage pg) n ready (Some a) =
         Some (Inr (s', n + of_nat (length (filter (unreferenced s2) rest)), ready', unready'))"
      "dlist (heap s') None ready' (rev (filter (unreferenced s2) rest) @ R)"
      "dlist (heap s') None unready' (rev (filter (\<lambda>a. \<not> unreferenced s2 a) rest) @ a # N)"
      "\<forall>x. x \<notin> set (rest @ R @ a # N) \<longrightarrow> heap s' x = heap s2 x"
      "contents s' = (\<lambda>x. if x \<in> set rest \<and> unreferenced s2 x
                         then map_option (\<lambda>q. q\<lparr>mPendingFence := mPendingFence q + 1\<rparr>) (contents s2 x)
                         else contents s2 x)"
      "m_unusedPages s' = m_unusedPages s2" "m_usedPages s' = m_usedPages s2"
      "m_pendingPages s' = m_pendingPages s2" "counters s' = counters s2"
      "dom (heap s') = dom (heap s2)"
      by blast
    have ur: "unreferenced s2 x = unreferenced s x" if "x \<in> set rest" for x
      by (rule unreferenced_heap) (rule same_rest[OF that])
    have f1: "filter (unreferenced s2) rest = filter (unreferenced s) rest"
      and f2: "filter (\<lambda>a. \<not> unreferenced s2 a) rest = filter (\<lambda>a. \<not> unreferenced s a) rest"
      using ur by (auto intro: filter_cong)
    have ua: "\<not> unreferenced s a" using False pg by (simp add: unreferenced_def)
    have run: "FenceCommittedPages_loop s page n ready unready =
         Some (Inr (s', n + of_nat (length (filter (unreferenced s) (a # rest))), ready', unready'))"
      by (subst FenceCommittedPages_loop.simps)
        (use pg False s2(1) s'(1) ua in \<open>simp add: Let_def f1\<close>)
    have c2: "contents s2 x = contents s x" for x
      using pg by (cases "heap s x") (auto simp: contents_def s2(2) unlinked_def)
    have cont: "contents s' = (\<lambda>x. if x \<in> set (a # rest) \<and> unreferenced s x
                         then map_option (\<lambda>q. q\<lparr>mPendingFence := mPendingFence q + 1\<rparr>) (contents s x)
                         else contents s x)"
    proof
      fix x
      show "contents s' x = (if x \<in> set (a # rest) \<and> unreferenced s x
                         then map_option (\<lambda>q. q\<lparr>mPendingFence := mPendingFence q + 1\<rparr>) (contents s x)
                         else contents s x)"
        using ua arest ur[of x] by (auto simp: s'(5) c2)
    qed
    have fr: "\<forall>x. x \<notin> set ((a # rest) @ R @ N) \<longrightarrow> heap s' x = heap s x"
      using s'(4) same by auto
    have dm: "dom (heap s') = dom (heap s)"
      using s'(10) pg by (auto simp: s2(2) dom_def split: if_splits)
    show ?thesis
      using run s'(2,3,6-9) s2(3-6) cont fr dm ua
      by (simp add: f1 f2)
  qed
qed

lemma LinkPageChain_last_list:
  "slist (heap s) (Some a) (a # as) \<Longrightarrow> LinkPageChain_last s a = Some (Inr (last (a # as)))"
proof (induction as arbitrary: a)
  case Nil
  then show ?case
    by (subst LinkPageChain_last.simps) (auto split: option.splits)
next
  case (Cons b as)
  from Cons.prems obtain pg where pg: "heap s a = Some pg" "pNextPage pg = Some b"
    "slist (heap s) (Some b) (b # as)"
    by (auto split: option.splits)
  show ?case
    by (subst LinkPageChain_last.simps) (use pg Cons.IH[OF pg(3)] in simp)
qed

lemma dlist_reprev:
  assumes d: "dlist h None q zs" and dist: "a \<notin> set zs" "distinct zs"
    and h': "\<And>x. x \<in> set zs \<Longrightarrow>
       h' x = (if Some x = q then map_option (\<lambda>xp. xp\<lparr>pPrevPage := Some a\<rparr>) (h x) else h x)"
  shows "dlist h' (Some a) q zs"
proof (cases zs)
  case Nil
  then show ?thesis using d by simp
next
  case (Cons x xs)
  with d obtain xpg where x: "q = Some x" "h x = Some xpg" "dlist h (Some x) (pNextPage xpg) xs"
    by (auto split: option.splits)
  have fr: "h' z = h z" if "z \<in> set xs" for z
    using h'[of z] that dist Cons x by auto
  have "dlist h' (Some x) (pNextPage xpg) xs"
    using x(3) fr by (rule dlist_frame)
  moreover have "h' x = Some (xpg\<lparr>pPrevPage := Some a\<rparr>)"
    using h'[of x] x Cons by simp
  ultimately show ?thesis
    using x Cons by simp
qed

lemma dlist_append_link:
  assumes "dlist h prv p R" and "R \<noteq> []" and dZ: "dlist h None q Z" and "distinct (R @ Z)"
    and "\<And>x. x \<in> set (R @ Z) \<Longrightarrow>
       h' x = (if x = last R then map_option (\<lambda>xp. xp\<lparr>pNextPage := q\<rparr>) (h x)
               else if Some x = q then map_option (\<lambda>xp. xp\<lparr>pPrevPage := Some (last R)\<rparr>) (h x)
               else h x)"
  shows "dlist h' prv p (R @ Z)"
  using assms(1,2,4,5)
proof (induction R arbitrary: prv p)
  case Nil
  then show ?case by simp
next
  case (Cons a R)
  from Cons.prems(1) obtain pg where pg: "p = Some a" "h a = Some pg" "pPrevPage pg = prv"
    "dlist h (Some a) (pNextPage pg) R"
    by (auto split: option.splits)
  have qZ: "Some x = q \<Longrightarrow> x \<in> set Z" for x
    using dZ by (cases Z) auto
  show ?case
  proof (cases "R = []")
    case True
    then have nx: "pNextPage pg = None" using pg(4) by simp
    have aq: "Some a \<noteq> q" using qZ[of a] Cons.prems(3) by auto
    have h'a: "h' a = Some (pg\<lparr>pNextPage := q\<rparr>)"
      using Cons.prems(4)[of a] pg True by simp
    have "dlist h' (Some a) q Z"
    proof (rule dlist_reprev[OF dZ])
      show "a \<notin> set Z" "distinct Z" using Cons.prems(3) by auto
      fix x assume x: "x \<in> set Z"
      then have "x \<noteq> a" using Cons.prems(3) by auto
      then show "h' x = (if Some x = q then map_option (\<lambda>xp. xp\<lparr>pPrevPage := Some a\<rparr>) (h x)
          else h x)"
        using Cons.prems(4)[of x] x True by simp
    qed
    then show ?thesis
      using True pg h'a by simp
  next
    case False
    have al: "a \<noteq> last R" using False Cons.prems(3) last_in_set[OF False] by auto
    have aq: "Some a \<noteq> q" using qZ[of a] Cons.prems(3) by auto
    have h'a: "h' a = Some pg"
      using Cons.prems(4)[of a] pg False al aq by simp
    have "dlist h' (Some a) (pNextPage pg) (R @ Z)"
    proof (rule Cons.IH[OF pg(4) False])
      show "distinct (R @ Z)" using Cons.prems(3) by simp
      fix x assume "x \<in> set (R @ Z)"
      then show "h' x = (if x = last R then map_option (\<lambda>xp. xp\<lparr>pNextPage := q\<rparr>) (h x)
               else if Some x = q then map_option (\<lambda>xp. xp\<lparr>pPrevPage := Some (last R)\<rparr>) (h x)
               else h x)"
        using Cons.prems(4)[of x] False by simp
    qed
    then show ?thesis
      using pg h'a by simp
  qed
qed

lemma LinkPageChain_state:
  assumes r: "slist (heap s) (Some r) R" and rp: "heap s r = Some rpg" "pPrevPage rpg = None"
    and hd: "\<And>x. get_head l s = Some x \<Longrightarrow> x \<noteq> last R \<and> (\<exists>xp. heap s x = Some xp \<and> pPrevPage xp = None)"
  shows "\<exists>s'. LinkPageChain dbg r l s = Some (Inr s') \<and>
     heap s' = (\<lambda>y. if y = last R then map_option (\<lambda>xp. xp\<lparr>pNextPage := get_head l s\<rparr>) (heap s y)
                    else if Some y = get_head l s
                      then map_option (\<lambda>xp. xp\<lparr>pPrevPage := Some (last R)\<rparr>) (heap s y)
                    else heap s y) \<and>
     get_head l s' = Some r \<and> (\<forall>l'. l' \<noteq> l \<longrightarrow> get_head l' s' = get_head l' s) \<and>
     counters s' = counters s"
proof -
  from r obtain R' where R: "R = r # R'" by (cases R) auto
  have lst: "LinkPageChain_last s r = Some (Inr (last R))"
    using LinkPageChain_last_list[of s r R'] r R by simp
  have "last R \<in> set R" using R by simp
  then obtain lp where lp: "heap s (last R) = Some lp"
    using slist_dom[OF r] by blast
  show ?thesis
  proof (cases "get_head l s")
    case None
    then show ?thesis
      using rp lst lp
      by (cases l)
        (auto simp: LinkPageChain_def bind_res_def assert_page_def assert_head_def
          set_pNextPage_def store_def set_head_def get_head_def counters_def fun_eq_iff
          split: list_head.splits)
  next
    case (Some x)
    with hd obtain xp where x: "x \<noteq> last R" "heap s x = Some xp" "pPrevPage xp = None"
      by blast
    show ?thesis
      using rp lst lp Some x
      by (cases l)
        (auto simp: LinkPageChain_def bind_res_def assert_page_def assert_head_def
          set_pNextPage_def set_pPrevPage_def store_def set_head_def get_head_def counters_def
          fun_eq_iff split: list_head.splits)
  qed
qed

lemma numReady_word:
  assumes "k < 2 ^ 32"
  shows "((0::32 word) < of_nat k) = (0 < k)" and "unat (of_nat k :: 32 word) = k"
proof -
  have "unat (of_nat k :: 32 word) = k mod 2 ^ 32"
    by (simp only: unat_of_nat len_of_numeral_defs) simp
  also have "\<dots> = k"
    using assms by (rule mod_less)
  finally show u: "unat (of_nat k :: 32 word) = k" .
  show "((0::32 word) < of_nat k) = (0 < k)"
    using u by (simp add: word_less_nat_alt)
qed

lemma contents_relink:
  assumes "heap s' = (\<lambda>y. if y = t then map_option (\<lambda>xp. xp\<lparr>pNextPage := q\<rparr>) (heap s y)
                    else if Some y = q
                      then map_option (\<lambda>xp. xp\<lparr>pPrevPage := Some t\<rparr>) (heap s y)
                    else heap s y)"
  shows "contents s' = contents s" and "dom (heap s') = dom (heap s)"
proof -
  show "contents s' = contents s"
  proof
    fix x show "contents s' x = contents s x"
      using assms by (cases "heap s x") (auto simp: contents_def unlinked_def)
  qed
  show "dom (heap s') = dom (heap s)"
    using assms by (auto simp: dom_def split: if_splits)
qed

lemma FenceCommittedPages_lists:
  assumes L: "lists s U S P" and len: "length S < 2 ^ 32"
  shows "\<exists>s'. FenceCommittedPages dbg s = Some (Inr s') \<and>
     lists s' U (rev (filter (\<lambda>a. \<not> unreferenced s a) S)) (rev (filter (unreferenced s) S) @ P) \<and>
     contents s' = (\<lambda>x. if x \<in> set S \<and> unreferenced s x
                         then map_option (\<lambda>q. q\<lparr>mPendingFence := mPendingFence q + 1\<rparr>) (contents s x)
                         else contents s x) \<and>
     counters s' = (m_increment s, m_numPending s + length (filter (unreferenced s) S),
                    m_totalPages s) \<and>
     dom (heap s') = dom (heap s)"
proof (cases "S = []")
  case True
  then have "m_usedPages s = None" using L by (simp add: lists_def)
  then show ?thesis
    using L True by (simp add: FenceCommittedPages_def counters_def)
next
  case False
  from L have dU: "dlist (heap s) None (m_unusedPages s) U"
    and dS: "dlist (heap s) None (m_usedPages s) S"
    and dP: "dlist (heap s) None (m_pendingPages s) P"
    and dist: "distinct (U @ S @ P)"
    by (simp_all add: lists_def)
  let ?R = "rev (filter (unreferenced s) S)" and ?N = "rev (filter (\<lambda>a. \<not> unreferenced s a) S)"
  obtain u where used: "m_usedPages s = Some u" using dS False by (cases S) auto
  have "distinct (S @ [] @ [])" using dist by simp
  from FenceCommittedPages_loop_lists[OF dlist_slist[OF dS] _ _ this, of None None 0]
  obtain s1 ready' unready' where s1:
    "FenceCommittedPages_loop s (m_usedPages s) 0 None None =
       Some (Inr (s1, of_nat (length ?R), ready', unready'))"
    "dlist (heap s1) None ready' ?R" "dlist (heap s1) None unready' ?N"
    "\<forall>x. x \<notin> set S \<longrightarrow> heap s1 x = heap s x"
    "contents s1 = (\<lambda>x. if x \<in> set S \<and> unreferenced s x
                         then map_option (\<lambda>q. q\<lparr>mPendingFence := mPendingFence q + 1\<rparr>) (contents s x)
                         else contents s x)"
    "m_unusedPages s1 = m_unusedPages s" "m_pendingPages s1 = m_pendingPages s"
    "counters s1 = counters s" "dom (heap s1) = dom (heap s)"
    by auto
  have fl: "length (filter (unreferenced s) S) \<le> length S"
    by (rule length_filter_le)
  have lenR: "length ?R < 2 ^ 32"
    using le_less_trans[OF fl len] by simp
  note nr = numReady_word[OF lenR]
  have dU1: "dlist (heap s1) None (m_unusedPages s) U"
    by (rule dlist_frame[OF dU]) (use s1(4) dist in auto)
  have dP1: "dlist (heap s1) None (m_pendingPages s) P"
    by (rule dlist_frame[OF dP]) (use s1(4) dist in auto)
  have distRN: "distinct (U @ ?N @ ?R @ P)"
    using dist by auto
  have c1: "m_increment s1 = m_increment s" "m_numPending s1 = m_numPending s"
    "m_totalPages s1 = m_totalPages s"
    using s1(8) by (simp_all add: counters_def)
  show ?thesis
  proof (cases "?R = []")
    case True
    then have "FenceCommittedPages dbg s = Some (Inr (s1\<lparr>m_usedPages := unready'\<rparr>))"
      using used s1(1) by (simp add: FenceCommittedPages_def bind_res_def)
    moreover have "lists (s1\<lparr>m_usedPages := unready'\<rparr>) U ?N (?R @ P)"
      using dU1 dP1 s1(3,6,7) distRN True by (simp add: lists_def)
    moreover have "contents (s1\<lparr>m_usedPages := unready'\<rparr>) = contents s1"
      by (simp add: contents_def fun_eq_iff)
    moreover have "length (filter (unreferenced s) S) = 0"
      using True by simp
    ultimately show ?thesis
      using s1(5,9) c1 by (simp add: counters_def)
  next
    case R: False
    then obtain r where r: "ready' = Some r" "hd ?R = r"
      using s1(2) by (cases ?R) auto
    let ?s3 = "s1\<lparr>m_usedPages := unready', m_numPending := m_numPending s1 + length ?R\<rparr>"
    have run1: "FenceCommittedPages dbg s = LinkPageChain dbg r PendingPages ?s3"
      using used s1(1) R r nr by (simp add: FenceCommittedPages_def bind_res_def)
    have sl: "slist (heap ?s3) (Some r) ?R"
      using dlist_slist[OF s1(2)] r by simp
    obtain rpg where rpg: "heap ?s3 r = Some rpg" "pPrevPage rpg = None"
      using dlist_head_prev[OF s1(2) r(1)] by auto
    have lastR: "last ?R \<in> set S"
      using last_in_set[OF R] by auto
    have hd: "x \<noteq> last ?R \<and> (\<exists>xp. heap ?s3 x = Some xp \<and> pPrevPage xp = None)"
      if "get_head PendingPages ?s3 = Some x" for x
    proof -
      have "m_pendingPages s = Some x" using that s1(7) by (simp add: get_head_def)
      from dlist_head_prev[OF dP1 this] show ?thesis
        using lastR dist by auto
    qed
    from LinkPageChain_state[OF sl rpg hd, of PendingPages dbg] obtain s' where s':
      "LinkPageChain dbg r PendingPages ?s3 = Some (Inr s')"
      "heap s' = (\<lambda>y. if y = last ?R
                      then map_option (\<lambda>xp. xp\<lparr>pNextPage := m_pendingPages s\<rparr>) (heap s1 y)
                    else if Some y = m_pendingPages s
                      then map_option (\<lambda>xp. xp\<lparr>pPrevPage := Some (last ?R)\<rparr>) (heap s1 y)
                    else heap s1 y)"
      "m_pendingPages s' = Some r" "m_usedPages s' = unready'" "m_unusedPages s' = m_unusedPages s"
      "counters s' = counters ?s3"
    proof -
      from LinkPageChain_state[OF sl rpg hd, of PendingPages dbg] obtain s' where s':
        "LinkPageChain dbg r PendingPages ?s3 = Some (Inr s')"
        "heap s' = (\<lambda>y. if y = last ?R
                      then map_option (\<lambda>xp. xp\<lparr>pNextPage := get_head PendingPages ?s3\<rparr>) (heap ?s3 y)
                    else if Some y = get_head PendingPages ?s3
                      then map_option (\<lambda>xp. xp\<lparr>pPrevPage := Some (last ?R)\<rparr>) (heap ?s3 y)
                    else heap ?s3 y)"
        "get_head PendingPages s' = Some r"
        "\<forall>l'. l' \<noteq> PendingPages \<longrightarrow> get_head l' s' = get_head l' ?s3"
        "counters s' = counters ?s3"
        by blast
      show ?thesis
      proof (rule that[of s'])
        show "LinkPageChain dbg r PendingPages ?s3 = Some (Inr s')" by (rule s'(1))
        have g: "get_head PendingPages ?s3 = m_pendingPages s" "heap ?s3 = heap s1"
          using s1(7) by (simp_all add: get_head_def)
        show "heap s' = (\<lambda>y. if y = last ?R
                      then map_option (\<lambda>xp. xp\<lparr>pNextPage := m_pendingPages s\<rparr>) (heap s1 y)
                    else if Some y = m_pendingPages s
                      then map_option (\<lambda>xp. xp\<lparr>pPrevPage := Some (last ?R)\<rparr>) (heap s1 y)
                    else heap s1 y)"
          using s'(2) unfolding g .
        show "m_pendingPages s' = Some r" using s'(3) by (simp add: get_head_def)
        show "m_usedPages s' = unready'"
          using s'(4)[rule_format, of UsedPages] by (simp add: get_head_def)
        show "m_unusedPages s' = m_unusedPages s"
          using s'(4)[rule_format, of UnusedPages] s1(6) by (simp add: get_head_def)
        show "counters s' = counters ?s3" by (rule s'(5))
      qed
    qed
    have pin: "Some y = m_pendingPages s \<Longrightarrow> y \<in> set P" for y
      using dP by (cases P) auto
    have dPend: "dlist (heap s') None (Some r) (?R @ P)"
    proof (rule dlist_append_link[OF _ R dP1])
      show "dlist (heap s1) None (Some r) ?R" using s1(2) r by simp
      show "distinct (?R @ P)" using dist by auto
      fix x assume "x \<in> set (?R @ P)"
      show "heap s' x = (if x = last ?R
          then map_option (\<lambda>xp. xp\<lparr>pNextPage := m_pendingPages s\<rparr>) (heap s1 x)
          else if Some x = m_pendingPages s
            then map_option (\<lambda>xp. xp\<lparr>pPrevPage := Some (last ?R)\<rparr>) (heap s1 x)
          else heap s1 x)"
        by (simp add: s'(2))
    qed
    have fr: "heap s' x = heap s1 x" if "x \<notin> set S" "x \<notin> set P" for x
      using that lastR pin[of x] by (auto simp: s'(2))
    have frN: "heap s' x = heap s1 x" if "x \<in> set ?N" for x
    proof -
      have "x \<noteq> last ?R" using that last_in_set[OF R] by auto
      moreover have "x \<notin> set P" using that dist by auto
      ultimately show ?thesis using pin[of x] by (auto simp: s'(2))
    qed
    have dU': "dlist (heap s') None (m_unusedPages s) U"
      by (rule dlist_frame[OF dU1]) (use fr dist in auto)
    have dN': "dlist (heap s') None unready' ?N"
      by (rule dlist_frame[OF s1(3)]) (rule frN)
    have Ls: "lists s' U ?N (?R @ P)"
      using dU' dN' dPend s'(3,4,5) distRN by (simp add: lists_def)
    note cr = contents_relink[OF s'(2)]
    have "counters s' = (m_increment s, m_numPending s + length (filter (unreferenced s) S),
                    m_totalPages s)"
      using s'(6) c1 by (simp add: counters_def)
    then show ?thesis
      using run1 s'(1) Ls cr s1(5,9) by simp
  qed
qed

lemma unreferenced_contents:
  "unreferenced s a = (case contents s a of None \<Rightarrow> False | Some q \<Rightarrow> mRefCount q = 0)"
  by (cases "heap s a") (simp_all add: unreferenced_def contents_def unlinked_def)

lemma arena_example_ready: "arena example_ready [10] [11, 12] [13, 14]"
  by (auto simp: arena_def lists_def example_ready_def example_arena_def example_page_def)

lemma FenceCommittedPages_arena:
  assumes A: "arena s U S P" and len: "length S < 2 ^ 32"
  shows "\<exists>s'. FenceCommittedPages dbg s = Some (Inr s') \<and>
     arena s' U (rev (filter (\<lambda>a. \<not> unreferenced s a) S)) (rev (filter (unreferenced s) S) @ P) \<and>
     contents s' = (\<lambda>x. if x \<in> set S \<and> unreferenced s x
                         then map_option (\<lambda>q. q\<lparr>mPendingFence := mPendingFence q + 1\<rparr>) (contents s x)
                         else contents s x) \<and>
     counters s' = (m_increment s, m_numPending s + length (filter (unreferenced s) S),
                    m_totalPages s)"
proof -
  from A have L: "lists s U S P" and dom: "dom (heap s) = set (U @ S @ P)"
    by (simp_all add: arena_def)
  from FenceCommittedPages_lists[OF L len, of dbg] obtain s' where s':
    "FenceCommittedPages dbg s = Some (Inr s')"
    "lists s' U (rev (filter (\<lambda>a. \<not> unreferenced s a) S)) (rev (filter (unreferenced s) S) @ P)"
    "contents s' = (\<lambda>x. if x \<in> set S \<and> unreferenced s x
                         then map_option (\<lambda>q. q\<lparr>mPendingFence := mPendingFence q + 1\<rparr>) (contents s x)
                         else contents s x)"
    "counters s' = (m_increment s, m_numPending s + length (filter (unreferenced s) S),
                    m_totalPages s)"
    "dom (heap s') = dom (heap s)"
    by blast
  have "dom (heap s') = set (U @ rev (filter (\<lambda>a. \<not> unreferenced s a) S) @
      rev (filter (unreferenced s) S) @ P)"
    using s'(5) dom by auto
  then show ?thesis
    using s'(1-4) by (simp add: arena_def)
qed

text \<open>
  Claim C2. In a state whose lists are \<open>U\<close>, \<open>S\<close> and \<open>P\<close>, with fewer than \<open>2^32\<close> used pages
  (\<^verbatim>\<open>numReady\<close> is a \<^verbatim>\<open>UINT\<close>), \<open>FenceCommittedPages\<close> returns and partitions the used
  list: the pages of \<open>S\<close> without outstanding references get a \<^verbatim>\<open>mPendingFence\<close>
  strictly greater than before and stand, as \<open>P'\<close>, in front of the old pending list;
  the pages of \<open>S\<close> with outstanding references are the new used list \<open>S'\<close> and keep
  their data; no page without outstanding references is left in the used list.
\<close>

theorem FenceCommittedPages_partition:
  assumes A: "arena s U S P" and len: "length S < 2 ^ 32"
  shows "\<exists>s' S' P'. FenceCommittedPages dbg s = Some (Inr s') \<and> arena s' U S' (P' @ P) \<and>
     set P' = {a \<in> set S. unreferenced s a} \<and> set S' = {a \<in> set S. \<not> unreferenced s a} \<and>
     (\<forall>a\<in>set P'. \<exists>q q'. contents s a = Some q \<and> contents s' a = Some q' \<and>
         mPendingFence q < mPendingFence q') \<and>
     (\<forall>a. a \<notin> set P' \<longrightarrow> contents s' a = contents s a) \<and>
     (\<forall>a\<in>set S'. \<not> unreferenced s' a)"
proof -
  let ?P' = "rev (filter (unreferenced s) S)" and ?S' = "rev (filter (\<lambda>a. \<not> unreferenced s a) S)"
  from FenceCommittedPages_arena[OF A len, of dbg] obtain s' where s':
    "FenceCommittedPages dbg s = Some (Inr s')" "arena s' U ?S' (?P' @ P)"
    "contents s' = (\<lambda>x. if x \<in> set S \<and> unreferenced s x
                         then map_option (\<lambda>q. q\<lparr>mPendingFence := mPendingFence q + 1\<rparr>) (contents s x)
                         else contents s x)"
    by blast
  have 1: "set ?P' = {a \<in> set S. unreferenced s a}" "set ?S' = {a \<in> set S. \<not> unreferenced s a}"
    by auto
  have 2: "\<exists>q q'. contents s a = Some q \<and> contents s' a = Some q' \<and>
         mPendingFence q < mPendingFence q'" if "a \<in> set ?P'" for a
  proof -
    from that have a: "a \<in> set S" "unreferenced s a" by auto
    then obtain q where "contents s a = Some q"
      by (auto simp: unreferenced_contents split: option.splits)
    then show ?thesis using a by (simp add: s'(3))
  qed
  have 3: "contents s' a = contents s a" if "a \<notin> set ?P'" for a
    using that by (auto simp: s'(3))
  have 4: "\<not> unreferenced s' a" if "a \<in> set ?S'" for a
    using that 3[of a] by (auto simp: unreferenced_contents)
  show ?thesis
    using s'(1,2) 1 2 3 4 by blast
qed

text \<open>
  In the example page 11 has no outstanding reference and page 12 has: page 11 moves in
  front of the pending pages 13 and 14, and its fence value, 4 before, grows.
\<close>

theorem FenceCommittedPages_partition_witness:
  "arena example_arena [10] [11, 12] [13, 14] \<and> length [11::addr, 12] < 2 ^ 32 \<and>
   (\<exists>s' f. FenceCommittedPages True example_arena = Some (Inr s') \<and>
         arena s' [10] [12] ([11] @ [13, 14]) \<and>
         map_option mPendingFence (contents example_arena 11) = Some 4 \<and>
         map_option mPendingFence (contents s' 11) = Some f \<and> 4 < f \<and>
         contents s' 12 = contents example_arena 12)"
proof -
  have len: "length [11::addr, 12] < 2 ^ 32" by simp
  have u: "unreferenced example_arena 11 = True" "unreferenced example_arena 12 = False"
    by (simp_all add: unreferenced_def example_arena_def example_page_def)
  have c: "contents example_arena 11 = Some (example_page None None 4 8192 0)"
    by (simp add: contents_def unlinked_def example_arena_def example_page_def)
  from FenceCommittedPages_partition[OF arena_example len, of True] obtain s' S' P' where s':
    "FenceCommittedPages True example_arena = Some (Inr s')" "arena s' [10] S' (P' @ [13, 14])"
    "set P' = {a \<in> set [11, 12]. unreferenced example_arena a}"
    "set S' = {a \<in> set [11, 12]. \<not> unreferenced example_arena a}"
    "\<forall>a\<in>set P'. \<exists>q q'. contents example_arena a = Some q \<and> contents s' a = Some q' \<and>
         mPendingFence q < mPendingFence q'"
    "\<forall>a. a \<notin> set P' \<longrightarrow> contents s' a = contents example_arena a"
    by blast
  have dist: "distinct ([10] @ S' @ P' @ [13, 14])"
    using s'(2) by (simp add: arena_def lists_def)
  have "set P' = {11}" using s'(3) u by auto
  then have P': "P' = [11]"
    using dist by (cases P'; cases "tl P'") auto
  have "set S' = {12}" using s'(4) u by auto
  then have S': "S' = [12]"
    using dist by (cases S'; cases "tl S'") auto
  from s'(5) P' obtain q' where q': "contents s' 11 = Some q'" "4 < mPendingFence q'"
    by (auto simp: c example_page_def)
  have "contents s' 12 = contents example_arena 12"
    using s'(6) P' by simp
  moreover have "map_option mPendingFence (contents example_arena 11) = Some 4"
    by (simp add: c example_page_def)
  moreover have "map_option mPendingFence (contents s' 11) = Some (mPendingFence q')"
    by (simp add: q')
  ultimately show ?thesis
    using s'(1,2) q'(2) arena_example len unfolding P' S' by blast
qed

lemma arena_unique:
  assumes "arena s U S P" and "arena s U' S' P'"
  shows "U' = U" and "S' = S" and "P' = P"
  using assms
  by (auto simp: arena_def lists_def dest: dlist_slist slist_unique)

text \<open>
  Claim C9, as amended. In a state whose lists are \<open>U\<close>, \<open>S\<close> and \<open>P\<close> (fewer than \<open>2^32\<close>
  used pages), one call of \<open>FenceCommittedPages\<close> puts the pages of \<open>S\<close> without
  outstanding references in front of the pending list in the reverse of the order they
  had in \<open>S\<close> (each is pushed on the head of the ready chain); the pages with outstanding
  references form the new used list, reversed as well. The \<^verbatim>\<open>mPendingFence\<close> of each
  page that becomes pending is its own previous value plus one, whatever the other
  pages hold; no other data of any page changes.
\<close>

theorem FenceCommittedPages_order:
  assumes A: "arena s U S P" and len: "length S < 2 ^ 32"
  shows "\<exists>s'. FenceCommittedPages dbg s = Some (Inr s') \<and>
     arena s' U (rev (filter (\<lambda>a. \<not> unreferenced s a) S)) (rev (filter (unreferenced s) S) @ P) \<and>
     (\<forall>a. contents s' a =
        (if a \<in> set S \<and> unreferenced s a
         then map_option (\<lambda>q. q\<lparr>mPendingFence := mPendingFence q + 1\<rparr>) (contents s a)
         else contents s a))"
proof -
  from FenceCommittedPages_arena[OF A len, of dbg] obtain s' where
    "FenceCommittedPages dbg s = Some (Inr s')"
    "arena s' U (rev (filter (\<lambda>a. \<not> unreferenced s a) S)) (rev (filter (unreferenced s) S) @ P)"
    "contents s' = (\<lambda>x. if x \<in> set S \<and> unreferenced s x
                         then map_option (\<lambda>q. q\<lparr>mPendingFence := mPendingFence q + 1\<rparr>) (contents s x)
                         else contents s x)"
    by blast
  then show ?thesis by auto
qed

lemma unreferenced_example_ready:
  "unreferenced example_ready 11 = True" "unreferenced example_ready 12 = True"
  by (simp_all add: unreferenced_def example_ready_def example_arena_def example_page_def)

text \<open>
  With the used pages 11 and 12 both ready, the pending list becomes 12, 11, 13, 14;
  the fence values go from 4 to 5 and from 0 to 1.
\<close>

theorem FenceCommittedPages_order_witness:
  "arena example_ready [10] [11, 12] [13, 14] \<and> length [11::addr, 12] < 2 ^ 32 \<and>
   (\<exists>s'. FenceCommittedPages True example_ready = Some (Inr s') \<and>
         arena s' [10] [] [12, 11, 13, 14] \<and>
         contents s' 11 = Some (example_page None None 5 8192 0) \<and>
         contents s' 12 = Some (example_page None None 1 4096 0) \<and>
         contents s' 13 = contents example_ready 13)"
proof -
  have len: "length [11::addr, 12] < 2 ^ 32" by simp
  have c: "contents example_ready 11 = Some (example_page None None 4 8192 0)"
    "contents example_ready 12 = Some (example_page None None 0 4096 0)"
    by (simp_all add: contents_def unlinked_def example_ready_def example_arena_def
        example_page_def)
  from FenceCommittedPages_order[OF arena_example_ready len, of True] obtain s' where s':
    "FenceCommittedPages True example_ready = Some (Inr s')"
    "arena s' [10] [] [12, 11, 13, 14]"
    "\<forall>a. contents s' a =
        (if a \<in> set [11, 12] \<and> unreferenced example_ready a
         then map_option (\<lambda>q. q\<lparr>mPendingFence := mPendingFence q + 1\<rparr>) (contents example_ready a)
         else contents example_ready a)"
    by (auto simp: unreferenced_example_ready)
  have "contents s' 11 = Some (example_page None None 5 8192 0)"
    "contents s' 12 = Some (example_page None None 1 4096 0)"
    "contents s' 13 = contents example_ready 13"
    using s'(3) by (simp_all add: unreferenced_example_ready c example_page_def)
  then show ?thesis
    using s'(1,2) arena_example_ready len by blast
qed

text \<open>
  Claim C9 as stated fails: pages 11 and 12 stand in this order in the used list and
  in the order 12, 11 in the pending list after the commit.
\<close>

theorem FenceCommittedPages_order_counterexample:
  "arena example_ready [10] [11, 12] [13, 14] \<and>
   (case FenceCommittedPages False example_ready of
      Some (Inr s') \<Rightarrow> arena s' [10] [] [12, 11, 13, 14] \<and> \<not> arena s' [10] [] [11, 12, 13, 14]
    | _ \<Rightarrow> False)"
proof -
  have len: "length [11::addr, 12] < 2 ^ 32" by simp
  from FenceCommittedPages_arena[OF arena_example_ready len, of False] obtain s' where s':
    "FenceCommittedPages False example_ready = Some (Inr s')"
    "arena s' [10] [] [12, 11, 13, 14]"
    by (auto simp: unreferenced_example_ready)
  have "\<not> arena s' [10] [] [11, 12, 13, 14]"
  proof
    assume "arena s' [10] [] [11, 12, 13, 14]"
    from arena_unique(3)[OF s'(2) this] show False by simp
  qed
  then show ?thesis
    using s' arena_example_ready by simp
qed

section \<open>Acquiring pages\<close>

lemma GetNewPage_lists:
  assumes L: "lists s U S P" and fresh: "heap s a = None"
  shows "\<exists>s'. GetNewPage (Creates a) s = Inr (Some a, s') \<and> lists s' (a # U) S P \<and>
      contents s' = (contents s)(a \<mapsto> LinearAllocatorPage\<lparr>mSize := m_increment s\<rparr>) \<and>
      counters s' = (m_increment s, m_numPending s, m_totalPages s + 1) \<and>
      dom (heap s') = insert a (dom (heap s))"
proof -
  from L have dU: "dlist (heap s) None (m_unusedPages s) U"
    and dS: "dlist (heap s) None (m_usedPages s) S"
    and dP: "dlist (heap s) None (m_pendingPages s) P"
    and dist: "distinct (U @ S @ P)"
    by (simp_all add: lists_def)
  have notin: "a \<notin> set (U @ S @ P)"
    using fresh dlist_dom[OF dU, of a] dlist_dom[OF dS, of a] dlist_dom[OF dP, of a] by auto
  let ?q = "LinearAllocatorPage\<lparr>mSize := m_increment s, pPrevPage := None,
      pNextPage := m_unusedPages s\<rparr>"
  have hd: "r \<noteq> a \<and> heap s r \<noteq> None" if "m_unusedPages s = Some r" for r
    using dlist_head_prev[OF dU that] notin by auto
  from push_state[OF hd, of "m_unusedPages s" ?q] obtain s2 where s2:
    "bind_err (Inr (store a ?q s))
       (\<lambda>s1. case m_unusedPages s of Some r \<Rightarrow> set_pPrevPage r (Some a) s1 | None \<Rightarrow> Inr s1) = Inr s2"
    "heap s2 = (\<lambda>y. if y = a then Some ?q
                    else if Some y = m_unusedPages s
                      then map_option (\<lambda>xp. xp\<lparr>pPrevPage := Some a\<rparr>) (heap s y)
                    else heap s y)"
    "m_unusedPages s2 = m_unusedPages s" "m_usedPages s2 = m_usedPages s"
    "m_pendingPages s2 = m_pendingPages s" "counters s2 = counters s"
    by blast
  let ?s' = "s2\<lparr>m_unusedPages := Some a, m_totalPages := m_totalPages s2 + 1\<rparr>"
  have run: "GetNewPage (Creates a) s = Inr (Some a, ?s')"
    using s2(1) by (simp add: GetNewPage_def Let_def bind_err_def split: sum.splits)
  have uin: "Some y = m_unusedPages s \<Longrightarrow> y \<in> set U" for y
    using dU by (cases U) auto
  have same: "heap s2 x = heap s x" if "x \<in> set (S @ P)" for x
    using that notin dist uin[of x] by (auto simp: s2(2))
  have 1: "dlist (heap s2) None (Some a) (a # U)"
    by (rule dlist_cons[OF dU, where q="?q"]) (use notin dist in \<open>auto simp: s2(2)\<close>)
  have 2: "dlist (heap s2) None (m_usedPages s) S"
    by (rule dlist_frame[OF dS]) (use same in auto)
  have 3: "dlist (heap s2) None (m_pendingPages s) P"
    by (rule dlist_frame[OF dP]) (use same in auto)
  have Ls: "lists ?s' (a # U) S P"
    using 1 2 3 dist notin s2(4,5) by (simp add: lists_def)
  have c: "contents ?s' = (contents s)(a \<mapsto> LinearAllocatorPage\<lparr>mSize := m_increment s\<rparr>)"
  proof
    fix x
    show "contents ?s' x = ((contents s)(a \<mapsto> LinearAllocatorPage\<lparr>mSize := m_increment s\<rparr>)) x"
      by (cases "heap s x")
        (auto simp: contents_def s2(2) unlinked_def LinearAllocatorPage_def)
  qed
  have "counters ?s' = (m_increment s, m_numPending s, m_totalPages s + 1)"
    using s2(6) by (simp add: counters_def)
  moreover have "dom (heap ?s') = insert a (dom (heap s))"
    by (auto simp: s2(2) dom_def split: if_splits)
  ultimately show ?thesis
    using run Ls c by blast
qed

lemma GetCleanPageForAlloc_unused:
  assumes L: "lists s (u # U) S P"
    and z: "dbg \<longrightarrow> (\<forall>pg. heap s u = Some pg \<longrightarrow> mOffset pg = 0)"
  shows "\<exists>s'. GetCleanPageForAlloc dbg b s = Inr (Some u, s') \<and> lists s' U (u # S) P \<and>
      contents s' = contents s \<and> counters s' = counters s \<and> dom (heap s') = dom (heap s)"
proof -
  have hd: "m_unusedPages s = Some u"
    using L by (simp add: lists_def)
  have dist: "distinct ((u # U) @ S @ P)" using L by (simp add: lists_def)
  from UnlinkPage_lists[OF L, of u] obtain s1 pg where s1:
    "UnlinkPage u s = Inr s1" "heap s u = Some pg" "heap s1 u = Some (unlinked pg)"
    "lists s1 (remove1 u (u # U)) (remove1 u S) (remove1 u P)"
    "contents s1 = contents s" "counters s1 = counters s" "dom (heap s1) = dom (heap s)"
    by auto
  have L1: "lists s1 U S P"
    using s1(4) dist by (simp add: remove1_idem)
  have n1: "u \<notin> set (U @ S @ P)" using dist by auto
  from LinkPage_lists[OF L1 n1 s1(3), of dbg UsedPages] obtain s2 where s2:
    "LinkPage dbg u UsedPages s1 = Inr s2" "lists s2 U (u # S) P"
    "contents s2 = contents s1" "counters s2 = counters s1" "dom (heap s2) = dom (heap s1)"
    by (auto simp: unlinked_def)
  have off: "dbg \<longrightarrow> (\<forall>q. heap s2 u = Some q \<longrightarrow> mOffset q = 0)"
  proof (intro impI allI)
    fix q assume d: dbg and q: "heap s2 u = Some q"
    have "contents s2 u = contents s u" using s2(3) s1(5) by simp
    then have "unlinked q = unlinked pg" using q s1(2) by (simp add: contents_def)
    then have "mOffset q = mOffset pg"
      by (cases q, cases pg) (simp add: unlinked_def)
    then show "mOffset q = 0" using z d s1(2) by simp
  qed
  obtain q where q: "heap s2 u = Some q"
    using s2(5) s1(7,2) by (metis domD domI)
  have "GetCleanPageForAlloc dbg b s = Inr (Some u, s2)"
    using hd s1(1) s2(1) q off
    by (simp add: GetCleanPageForAlloc_def bind_err_def assert_page_def)
  then show ?thesis
    using s2 s1(5,6,7) by simp
qed

lemma GetCleanPageForAlloc_new:
  assumes L: "lists s [] S P" and fresh: "heap s a = None"
  shows "\<exists>s'. GetCleanPageForAlloc dbg (Creates a) s = Inr (Some a, s') \<and> lists s' [] (a # S) P \<and>
      contents s' = (contents s)(a \<mapsto> LinearAllocatorPage\<lparr>mSize := m_increment s\<rparr>) \<and>
      counters s' = (m_increment s, m_numPending s, m_totalPages s + 1) \<and>
      dom (heap s') = insert a (dom (heap s))"
proof -
  have hd: "m_unusedPages s = None"
    using L by (simp add: lists_def)
  from GetNewPage_lists[OF L fresh] obtain s0 where s0:
    "GetNewPage (Creates a) s = Inr (Some a, s0)" "lists s0 [a] S P"
    "contents s0 = (contents s)(a \<mapsto> LinearAllocatorPage\<lparr>mSize := m_increment s\<rparr>)"
    "counters s0 = (m_increment s, m_numPending s, m_totalPages s + 1)"
    "dom (heap s0) = insert a (dom (heap s))"
    by blast
  have dist: "distinct ([a] @ S @ P)" using s0(2) by (simp add: lists_def)
  from UnlinkPage_lists[OF s0(2), of a] obtain s1 pg where s1:
    "UnlinkPage a s0 = Inr s1" "heap s0 a = Some pg" "heap s1 a = Some (unlinked pg)"
    "lists s1 (remove1 a [a]) (remove1 a S) (remove1 a P)"
    "contents s1 = contents s0" "counters s1 = counters s0" "dom (heap s1) = dom (heap s0)"
    by auto
  have L1: "lists s1 [] S P"
    using s1(4) dist by (simp add: remove1_idem)
  have n1: "a \<notin> set ([] @ S @ P)" using dist by auto
  from LinkPage_lists[OF L1 n1 s1(3), of dbg UsedPages] obtain s2 where s2:
    "LinkPage dbg a UsedPages s1 = Inr s2" "lists s2 [] (a # S) P"
    "contents s2 = contents s1" "counters s2 = counters s1" "dom (heap s2) = dom (heap s1)"
    by (auto simp: unlinked_def)
  obtain q where q: "heap s2 a = Some q"
    using s2(5) s1(7,2) by (metis domD domI)
  have "contents s2 a = Some (LinearAllocatorPage\<lparr>mSize := m_increment s\<rparr>)"
    using s2(3) s1(5) s0(3) by simp
  then have "unlinked q = LinearAllocatorPage\<lparr>mSize := m_increment s\<rparr>"
    using q by (simp add: contents_def)
  then have "mOffset q = 0"
    by (cases q) (simp add: unlinked_def LinearAllocatorPage_def)
  then have "GetCleanPageForAlloc dbg (Creates a) s = Inr (Some a, s2)"
    using hd s0(1) s1(1) s2(1) q
    by (simp add: GetCleanPageForAlloc_def bind_err_def assert_page_def)
  then show ?thesis
    using s2 s1(5,6,7) s0(3,4,5) by simp
qed

lemma GetCleanPageForAlloc_fails:
  assumes "m_unusedPages s = None"
  shows "GetCleanPageForAlloc dbg CreateResourceFails s = Inr (None, s)"
    and "GetCleanPageForAlloc dbg CreateFenceFails s = Inr (None, s)"
    and "GetCleanPageForAlloc dbg MapFails s = Inl MapFailed"
    and "GetCleanPageForAlloc dbg NewThrows s = Inl BadAlloc"
  using assms by (simp_all add: GetCleanPageForAlloc_def GetNewPage_def bind_err_def)

lemma AlignOffset_release:
  "dbg \<longrightarrow> alignment = 0 \<or> alignment AND (alignment - 1) = 0 \<Longrightarrow>
   AlignOffset dbg offset alignment = AlignOffset False offset alignment"
  by (auto simp: AlignOffset_def)

lemma AlignOffset_False_Inr: "\<exists>r. AlignOffset False offset alignment = Inr r"
  by (simp add: AlignOffset_def)

lemma FindPageForAlloc_list_find:
  assumes "slist (heap s) p as"
    and al: "dbg \<longrightarrow> alignment = 0 \<or> alignment AND (alignment - 1) = 0"
  shows "FindPageForAlloc_list dbg s p sizeBytes alignment
           = Some (Inr (find (page_fits s sizeBytes alignment) as))"
  using assms(1)
proof (induction as arbitrary: p)
  case Nil
  then show ?case
    by (subst FindPageForAlloc_list.simps) simp
next
  case (Cons a as)
  from Cons.prems obtain pg where pg: "p = Some a" "heap s a = Some pg"
    "slist (heap s) (pNextPage pg) as"
    by (auto split: option.splits)
  obtain r where r: "AlignOffset False (mOffset pg) alignment = Inr r"
    using AlignOffset_False_Inr by blast
  have r': "AlignOffset dbg (mOffset pg) alignment = Inr r"
    using AlignOffset_release[OF al] r by simp
  have pf: "page_fits s sizeBytes alignment a = (r + sizeBytes \<le> m_increment s)"
    using pg r by (simp add: page_fits_def)
  show ?case
    by (subst FindPageForAlloc_list.simps)
      (use pg r' Cons.IH[OF pg(3)] in \<open>simp add: pf\<close>)
qed

text \<open>The test of the scan is the specification's, as long as nothing wraps around.\<close>

lemma page_fits_spec:
  assumes pg: "heap s a = Some pg"
    and al: "alignment = 0 \<or> (\<exists>k<64. alignment = 2 ^ k)"
    and b: "unat (mOffset pg) \<le> unat (m_increment s)" "unat alignment \<le> unat (m_increment s)"
      "unat sz \<le> unat (m_increment s)" "unat (m_increment s) \<le> 2 ^ 62"
  shows "page_fits s sz alignment a =
     spec_fits (unat (m_increment s)) (cursor s a) (unat sz) (unat alignment)"
proof -
  have p62: "(2::nat) ^ 62 + 2 ^ 62 \<le> 2 ^ 64" "(2::nat) ^ 62 + 2 ^ 62 + 2 ^ 62 < 2 ^ 64"
    by simp_all
  have nov: "unat (mOffset pg) + unat alignment \<le> 2 ^ 64"
    using b p62 by linarith
  from AlignOffset_spec[OF al nov, of False] obtain r where r:
    "AlignOffset False (mOffset pg) alignment = Inr r"
    "unat r = spec_align_up (unat (mOffset pg)) (unat alignment)"
    by blast
  have "spec_align_up (unat (mOffset pg)) (unat alignment) \<le> unat (mOffset pg) + unat alignment"
  proof (cases "unat alignment = 0")
    case True
    then show ?thesis by (simp add: spec_align_up_def)
  next
    case False
    then show ?thesis
      using spec_align_up_least(3)[of "unat alignment" "unat (mOffset pg)"] by simp
  qed
  then have "unat r + unat sz < 2 ^ LENGTH(64)"
    using b p62 r(2) by simp
  then have s: "unat (r + sz) = unat r + unat sz"
    by (simp add: unat_add_lem[THEN iffD1])
  show ?thesis
    using pg r s by (simp add: page_fits_def spec_fits_def cursor_def word_le_nat_alt)
qed

lemma cursor_Some: "heap s a = Some pg \<Longrightarrow> cursor s a = unat (mOffset pg)"
  by (simp add: cursor_def)

lemma GetPageForAlloc_find:
  assumes L: "lists s U S P"
    and al: "dbg \<longrightarrow> alignment = 0 \<or> alignment AND (alignment - 1) = 0 \<or>
               (sizeBytes = m_increment s \<and> alignment = m_increment s)"
  shows "GetPageForAlloc dbg b sizeBytes alignment s =
     (if sizeBytes = m_increment s \<and> (alignment = 0 \<or> alignment = m_increment s)
      then Some (GetCleanPageForAlloc dbg b s)
      else case find (page_fits s sizeBytes alignment) S of
             Some p \<Rightarrow> Some (Inr (Some p, s))
           | None \<Rightarrow> Some (GetCleanPageForAlloc dbg b s))"
proof (cases "sizeBytes = m_increment s \<and> (alignment = 0 \<or> alignment = m_increment s)")
  case True
  then show ?thesis by (simp add: GetPageForAlloc_def)
next
  case False
  then have al': "dbg \<longrightarrow> alignment = 0 \<or> alignment AND (alignment - 1) = 0"
    using al by auto
  have sl: "slist (heap s) (m_usedPages s) S"
    using L by (auto simp: lists_def intro: dlist_slist)
  have "GetPageForAlloc dbg b sizeBytes alignment s =
      bind_res (FindPageForAlloc_list dbg s (m_usedPages s) sizeBytes alignment) (\<lambda>page.
          case page of
            None \<Rightarrow> Some (GetCleanPageForAlloc dbg b s)
          | Some p \<Rightarrow> Some (Inr (Some p, s)))"
    using False by (simp only: GetPageForAlloc_def if_False)
  also have "\<dots> = (case find (page_fits s sizeBytes alignment) S of
             Some p \<Rightarrow> Some (Inr (Some p, s))
           | None \<Rightarrow> Some (GetCleanPageForAlloc dbg b s))"
    by (simp only: FindPageForAlloc_list_find[OF sl al'])
      (simp add: bind_res_def split: option.splits)
  finally show ?thesis
    using False by (simp only: if_False)
qed

lemma GetCleanPageForAlloc_spec:
  assumes A: "arena s U S P" and fresh: "heap s a = None"
    and z: "dbg \<longrightarrow> (\<forall>p\<in>set U. cursor s p = 0)"
  shows "case spec_clean_page U S a of
           (p, U', S') \<Rightarrow>
             \<exists>s'. GetCleanPageForAlloc dbg (Creates a) s = Inr (Some p, s') \<and> arena s' U' S' P \<and>
               contents s' =
                 (if U = [] then (contents s)(a \<mapsto> LinearAllocatorPage\<lparr>mSize := m_increment s\<rparr>)
                  else contents s) \<and>
               counters s' =
                 (m_increment s, m_numPending s, m_totalPages s + (if U = [] then 1 else 0))"
proof (cases U)
  case Nil
  from A have L: "lists s [] S P" and dom: "dom (heap s) = set ([] @ S @ P)"
    by (simp_all add: arena_def Nil)
  from GetCleanPageForAlloc_new[OF L fresh, of dbg] obtain s' where s':
    "GetCleanPageForAlloc dbg (Creates a) s = Inr (Some a, s')" "lists s' [] (a # S) P"
    "contents s' = (contents s)(a \<mapsto> LinearAllocatorPage\<lparr>mSize := m_increment s\<rparr>)"
    "counters s' = (m_increment s, m_numPending s, m_totalPages s + 1)"
    "dom (heap s') = insert a (dom (heap s))"
    by blast
  have "arena s' [] (a # S) P"
    using s'(2,5) dom by (simp add: arena_def)
  then show ?thesis
    using s'(1,3,4) Nil by (simp add: spec_clean_page_def)
next
  case (Cons u U')
  from A have L: "lists s (u # U') S P" and dom: "dom (heap s) = set ((u # U') @ S @ P)"
    by (simp_all add: arena_def Cons)
  have z': "dbg \<longrightarrow> (\<forall>pg. heap s u = Some pg \<longrightarrow> mOffset pg = 0)"
    using z Cons by (auto simp: cursor_def unat_eq_0)
  from GetCleanPageForAlloc_unused[OF L z', of "Creates a"] obtain s' where s':
    "GetCleanPageForAlloc dbg (Creates a) s = Inr (Some u, s')" "lists s' U' (u # S) P"
    "contents s' = contents s" "counters s' = counters s" "dom (heap s') = dom (heap s)"
    by blast
  have "arena s' U' (u # S) P"
    using s'(2,5) dom by (auto simp: arena_def)
  then show ?thesis
    using s'(1,3,4) Cons by (simp add: spec_clean_page_def counters_def)
qed

text \<open>
  Claim C4, as amended. In a state whose lists are \<open>U\<close>, \<open>S\<close> and \<open>P\<close>, in which the
  cursor of every used page is within the page size (hypothesis \<open>cur\<close>) and, for a
  debug build, which asserts it, the cursor of every unused page is 0 (hypothesis \<open>z\<close>);
  for a request whose size and alignment are not above the page size, itself at most
  \<open>2^62\<close> bytes (hypotheses \<open>b\<close>), and whose alignment is zero, a power of two or, with
  a size that fills the page, the page size (hypothesis \<open>al\<close>); and with the device
  backend ready to create the page \<open>a\<close>: \<open>GetPageForAlloc\<close> chooses the page and
  leaves the lists that the specification's algorithm \<open>spec_acquire\<close> gives: a clean
  page (the head of the unused list, else the new page) when the request fills a page
  exactly; else the first used page in which the aligned cursor plus the size fits;
  else a clean page. A clean page becomes the head of the used list. No existing page
  changes its data.
\<close>

theorem GetPageForAlloc_refines:
  assumes A: "arena s U S P" and fresh: "heap s a = None"
    and al: "alignment = 0 \<or> (\<exists>k<64. alignment = 2 ^ k) \<or>
             (sizeBytes = m_increment s \<and> alignment = m_increment s)"
    and b: "unat sizeBytes \<le> unat (m_increment s)" "unat alignment \<le> unat (m_increment s)"
      "unat (m_increment s) \<le> 2 ^ 62"
    and cur: "\<forall>p\<in>set S. cursor s p \<le> unat (m_increment s)"
    and z: "dbg \<longrightarrow> (\<forall>p\<in>set U. cursor s p = 0)"
  shows "case spec_acquire (unat (m_increment s)) (cursor s) U S (unat sizeBytes)
                (unat alignment) a of
           (p, U', S') \<Rightarrow>
             \<exists>s'. GetPageForAlloc dbg (Creates a) sizeBytes alignment s = Some (Inr (Some p, s')) \<and>
                  arena s' U' S' P \<and> (\<forall>x. x \<noteq> a \<longrightarrow> contents s' x = contents s x) \<and>
                  m_increment s' = m_increment s"
proof -
  let ?fast = "sizeBytes = m_increment s \<and> (alignment = 0 \<or> alignment = m_increment s)"
  have fast_nat: "(unat sizeBytes = unat (m_increment s) \<and>
      (unat alignment = 0 \<or> unat alignment = unat (m_increment s))) = ?fast"
    by (simp only: unat_eq_0 word_unat_eq_iff[symmetric])
  from A have L: "lists s U S P" by (simp add: arena_def)
  have al_dbg: "dbg \<longrightarrow> alignment = 0 \<or> alignment AND (alignment - 1) = 0 \<or>
               (sizeBytes = m_increment s \<and> alignment = m_increment s)"
    using al pow2_word(4) by auto
  note gp = GetPageForAlloc_find[OF L al_dbg, of "Creates a"]
  have clean: "case spec_clean_page U S a of
           (p, U', S') \<Rightarrow>
             \<exists>s'. Some (GetCleanPageForAlloc dbg (Creates a) s) = Some (Inr (Some p, s')) \<and>
                  arena s' U' S' P \<and> (\<forall>x. x \<noteq> a \<longrightarrow> contents s' x = contents s x) \<and>
                  m_increment s' = m_increment s"
    using GetCleanPageForAlloc_spec[OF A fresh z]
    by (auto simp: counters_def split: prod.splits)
  have sa: "spec_acquire (unat (m_increment s)) (cursor s) U S (unat sizeBytes) (unat alignment) a =
      (if ?fast then spec_clean_page U S a
       else case find (\<lambda>p. spec_fits (unat (m_increment s)) (cursor s p) (unat sizeBytes)
                       (unat alignment)) S of
              Some p \<Rightarrow> (p, U, S)
            | None \<Rightarrow> spec_clean_page U S a)"
    by (simp only: spec_acquire_def fast_nat)
  show ?thesis
  proof (cases ?fast)
    case True
    have "GetPageForAlloc dbg (Creates a) sizeBytes alignment s =
        Some (GetCleanPageForAlloc dbg (Creates a) s)"
      using gp by (simp only: if_P[OF True])
    moreover have "spec_acquire (unat (m_increment s)) (cursor s) U S (unat sizeBytes)
        (unat alignment) a = spec_clean_page U S a"
      using sa by (simp only: if_P[OF True])
    ultimately show ?thesis
      using clean by simp
  next
    case False
    then have al': "alignment = 0 \<or> (\<exists>k<64. alignment = 2 ^ k)"
      using al by auto
    have eq: "page_fits s sizeBytes alignment p =
        spec_fits (unat (m_increment s)) (cursor s p) (unat sizeBytes) (unat alignment)"
      if "p \<in> set S" for p
    proof -
      have "dlist (heap s) None (m_usedPages s) S" using L by (simp add: lists_def)
      from dlist_dom[OF this that] obtain pg where pg: "heap s p = Some pg" by blast
      have "unat (mOffset pg) \<le> unat (m_increment s)"
        using cur that pg by (auto simp: cursor_def)
      from page_fits_spec[OF pg al' this b(2,1,3)] show ?thesis .
    qed
    have f: "find (page_fits s sizeBytes alignment) S =
        find (\<lambda>p. spec_fits (unat (m_increment s)) (cursor s p) (unat sizeBytes) (unat alignment)) S"
      by (rule find_cong) (use eq in auto)
    have gp': "GetPageForAlloc dbg (Creates a) sizeBytes alignment s =
        (case find (page_fits s sizeBytes alignment) S of
             Some p \<Rightarrow> Some (Inr (Some p, s))
           | None \<Rightarrow> Some (GetCleanPageForAlloc dbg (Creates a) s))"
      using gp by (simp only: if_not_P[OF False])
    have sa': "spec_acquire (unat (m_increment s)) (cursor s) U S (unat sizeBytes)
        (unat alignment) a =
        (case find (page_fits s sizeBytes alignment) S of
              Some p \<Rightarrow> (p, U, S)
            | None \<Rightarrow> spec_clean_page U S a)"
      using sa by (simp only: if_not_P[OF False] f)
    show ?thesis
    proof (cases "find (page_fits s sizeBytes alignment) S")
      case None
      then show ?thesis
        using clean by (simp add: gp' sa')
    next
      case (Some p)
      then show ?thesis
        using A by (simp add: gp' sa')
    qed
  qed
qed

text \<open>
  In the example a request of 61440 bytes, aligned to 256, does not fit in page 11
  (cursor 8192) and fits in page 12 (cursor 4096).
\<close>

theorem GetPageForAlloc_refines_witness:
  "arena example_arena [10] [11, 12] [13, 14] \<and> heap example_arena 20 = None \<and>
   ((256::size_t) = 0 \<or> (\<exists>k<64. (256::size_t) = 2 ^ k) \<or>
      ((61440::size_t) = m_increment example_arena \<and> (256::size_t) = m_increment example_arena)) \<and>
   spec_acquire 65536 (cursor example_arena) [10] [11, 12] 61440 256 20 = (12, [10], [11, 12]) \<and>
   (\<exists>s'. GetPageForAlloc True (Creates 20) 61440 256 example_arena = Some (Inr (Some 12, s')) \<and>
         arena s' [10] [11, 12] [13, 14])"
proof -
  have fresh: "heap example_arena 20 = None"
    by (simp add: example_arena_def)
  have al: "(256::size_t) = 0 \<or> (\<exists>k<64. (256::size_t) = 2 ^ k) \<or>
      ((61440::size_t) = m_increment example_arena \<and> (256::size_t) = m_increment example_arena)"
    by (rule disjI2, rule disjI1, rule exI[of _ 8]) simp
  have inc: "unat (m_increment example_arena) = 65536"
    by (simp add: example_arena_def)
  have c: "cursor example_arena 10 = 0" "cursor example_arena 11 = 8192"
    "cursor example_arena 12 = 4096"
    by (simp_all add: cursor_def example_arena_def example_page_def)
  have sa: "spec_acquire 65536 (cursor example_arena) [10] [11, 12] 61440 256 20
      = (12, [10], [11, 12])"
    by (simp add: spec_acquire_def spec_fits_def spec_align_up_def c)
  have "case spec_acquire (unat (m_increment example_arena)) (cursor example_arena) [10] [11, 12]
          (unat (61440::size_t)) (unat (256::size_t)) 20 of
           (p, U', S') \<Rightarrow>
             \<exists>s'. GetPageForAlloc True (Creates 20) 61440 256 example_arena
                    = Some (Inr (Some p, s')) \<and>
                  arena s' U' S' [13, 14] \<and>
                  (\<forall>x. x \<noteq> 20 \<longrightarrow> contents s' x = contents example_arena x) \<and>
                  m_increment s' = m_increment example_arena"
    by (rule GetPageForAlloc_refines[OF arena_example fresh al]) (simp_all add: inc c)
  then have "\<exists>s'. GetPageForAlloc True (Creates 20) 61440 256 example_arena
                    = Some (Inr (Some 12, s')) \<and> arena s' [10] [11, 12] [13, 14]"
    by (simp add: inc sa) blast
  then show ?thesis
    using arena_example fresh al sa by blast
qed

lemma cursor_contents: "contents s' a = contents s a \<Longrightarrow> cursor s' a = cursor s a"
  by (cases "heap s a"; cases "heap s' a")
    (auto simp: cursor_def contents_def unlinked_def dest!: arg_cong[where f=mOffset])





lemma arena_example_empty: "arena example_empty [] [] []"
  by (simp add: arena_def lists_def example_empty_def)




section \<open>Freeing pages and the destructor\<close>

lemma FreePages_list:
  assumes "slist (heap s) p as" and "distinct as"
  shows "FreePages p s =
     Some (Inr (s\<lparr>heap := (\<lambda>x. if x \<in> set as then None else heap s x),
                  m_totalPages := m_totalPages s - length as\<rparr>))"
  using assms
proof (induction as arbitrary: s p)
  case Nil
  then show ?case
    by (subst FreePages.simps) simp
next
  case (Cons a as)
  from Cons.prems obtain pg where pg: "p = Some a" "heap s a = Some pg"
    "slist (heap s) (pNextPage pg) as" and d: "a \<notin> set as" "distinct as"
    by (auto split: option.splits)
  let ?s1 = "s\<lparr>heap := (heap s)(a := None), m_totalPages := m_totalPages s - 1\<rparr>"
  have "slist (heap ?s1) (pNextPage pg) as"
    by (rule slist_frame[OF pg(3)]) (use d in auto)
  from Cons.IH[OF this d(2)] have
    "FreePages (pNextPage pg) ?s1 =
       Some (Inr (?s1\<lparr>heap := (\<lambda>x. if x \<in> set as then None else heap ?s1 x),
                  m_totalPages := m_totalPages ?s1 - length as\<rparr>))" .
  moreover have "(\<lambda>x. if x \<in> set as then None else heap ?s1 x)
      = (\<lambda>x. if x \<in> set (a # as) then None else heap s x)"
    by (auto simp: fun_eq_iff)
  ultimately show ?case
    by (subst FreePages.simps) (use pg in simp)
qed

lemma RetirePendingPages_arena:
  assumes A: "arena s U S P" and D: "pending_asserts dbg s P"
  shows "\<exists>s'. RetirePendingPages dbg completed s = Some (Inr s') \<and>
      arena s' (rev (filter (fence_passed s completed) P) @ U) S
        (filter (\<lambda>a. \<not> fence_passed s completed a) P) \<and>
      contents s' = (\<lambda>a. if a \<in> set P \<and> fence_passed s completed a
          then map_option (\<lambda>q. q\<lparr>mOffset := 0\<rparr>) (contents s a) else contents s a) \<and>
      counters s' =
        (m_increment s, m_numPending s - length (filter (fence_passed s completed) P),
         m_totalPages s) \<and>
      pending_asserts dbg s' (filter (\<lambda>a. \<not> fence_passed s completed a) P)"
proof -
  from A have L: "lists s U S ([] @ P)" and dom: "dom (heap s) = set (U @ S @ P)"
    by (simp_all add: arena_def)
  have hd: "m_pendingPages s = (case P of [] \<Rightarrow> None | a # _ \<Rightarrow> Some a)"
    using L dlist_head[of "heap s" None "m_pendingPages s" P] by (simp add: lists_def)
  have p2: "dbg \<longrightarrow> (\<forall>a\<in>set P. \<forall>pg. contents s a = Some pg \<longrightarrow> mPendingFence pg \<noteq> 0)"
    using D by (auto simp: pending_asserts_def contents_def unlinked_def)
  have p3: "dbg \<longrightarrow> length (filter (fence_passed s completed) P) \<le> m_numPending s"
    using D by (auto simp: pending_asserts_def)
  from RetirePendingPages_loop_lists[OF L p2 p3] obtain s' where s':
    "RetirePendingPages_loop dbg s (case P of [] \<Rightarrow> None | a # _ \<Rightarrow> Some a) completed
       = Some (Inr s')"
    "lists s' (rev (filter (fence_passed s completed) P) @ U) S
       ([] @ filter (\<lambda>a. \<not> fence_passed s completed a) P)"
    "contents s' = (\<lambda>a. if a \<in> set P \<and> fence_passed s completed a
                         then map_option (\<lambda>q. q\<lparr>mOffset := 0\<rparr>) (contents s a)
                         else contents s a)"
    "counters s' = (m_increment s, m_numPending s - length (filter (fence_passed s completed) P),
                    m_totalPages s)"
    "dom (heap s') = dom (heap s)"
    by blast
  have "dom (heap s') = set ((rev (filter (fence_passed s completed) P) @ U) @ S @
      filter (\<lambda>a. \<not> fence_passed s completed a) P)"
    using s'(5) dom by auto
  then have ar: "arena s' (rev (filter (fence_passed s completed) P) @ U) S
        (filter (\<lambda>a. \<not> fence_passed s completed a) P)"
    using s'(2) by (simp add: arena_def)
  have pa: "pending_asserts dbg s' (filter (\<lambda>a. \<not> fence_passed s completed a) P)"
  proof (cases dbg)
    case False
    then show ?thesis by (simp add: pending_asserts_def)
  next
    case True
    have n: "m_numPending s' = length (filter (\<lambda>a. \<not> fence_passed s completed a) P)"
      using s'(4) D True sum_length_filter_compl[of "fence_passed s completed" P]
      by (simp add: counters_def pending_asserts_def)
    have "mPendingFence pg \<noteq> 0"
      if a: "a \<in> set P" and np: "\<not> fence_passed s completed a" and h: "heap s' a = Some pg"
      for a pg
    proof -
      have "contents s' a = contents s a" using np by (simp add: s'(3))
      then obtain q where q: "heap s a = Some q" "unlinked pg = unlinked q"
        using h by (cases "heap s a") (auto simp: contents_def)
      then have "mPendingFence pg = mPendingFence q"
        by (cases pg, cases q) (simp add: unlinked_def)
      then show ?thesis using D True a q(1) by (auto simp: pending_asserts_def)
    qed
    then show ?thesis using n True by (auto simp: pending_asserts_def)
  qed
  show ?thesis
    using s'(1,3,4) ar pa by (simp add: RetirePendingPages_def hd)
qed

lemma arena_pending_head:
  "arena s U S P \<Longrightarrow> (m_pendingPages s = None) = (P = [])"
  by (cases P) (auto simp: arena_def lists_def split: option.splits)

lemma uniform_bound:
  "\<forall>a\<in>set P. \<exists>m::nat. Q a m \<Longrightarrow> \<exists>k. \<forall>a\<in>set P. \<exists>m. m < k \<and> Q a m"
proof (induction P)
  case Nil
  then show ?case by simp
next
  case (Cons a P)
  then obtain k where k: "\<forall>a\<in>set P. \<exists>m. m < k \<and> Q a m" by auto
  from Cons.prems obtain m where m: "Q a m" by auto
  have "\<forall>b\<in>set (a # P). \<exists>j. j < max k (Suc m) \<and> Q b j"
  proof
    fix b assume "b \<in> set (a # P)"
    then consider "b = a" | "b \<in> set P" by auto
    then show "\<exists>j. j < max k (Suc m) \<and> Q b j"
    proof cases
      case 1
      then show ?thesis using m by (intro exI[of _ m]) auto
    next
      case 2
      then obtain j where "j < k" "Q b j" using k by auto
      then show ?thesis by (intro exI[of _ j]) auto
    qed
  qed
  then show ?case by blast
qed

lemma pending_asserts_example: "pending_asserts True example_arena [13, 14]"
  by (simp add: pending_asserts_def example_arena_def example_page_def)

text \<open>
  The loop of the destructor, followed for \<open>k\<close> passes from the pass \<open>n\<close>: the pages that
  are still pending are those whose fence was not seen passed in any of the passes
  made, the others are unused, and every page is still live.
\<close>

lemma wait_pending_lists:
  assumes "arena s U S P" and "pending_asserts dbg s P"
  shows "\<exists>ended n' s1 U1. wait_pending dbg gpu k n s = Some (Inr (ended, n', s1)) \<and>
      arena s1 U1 S (filter (\<lambda>a. \<forall>m. n \<le> m \<and> m < n' \<longrightarrow> \<not> fence_passed s (gpu m) a) P) \<and>
      set U1 = set U \<union> {a \<in> set P. \<exists>m. n \<le> m \<and> m < n' \<and> fence_passed s (gpu m) a} \<and>
      m_totalPages s1 = m_totalPages s \<and> n \<le> n' \<and> n' \<le> n + k \<and>
      (\<not> ended \<longrightarrow> n' = n + k) \<and>
      ended = (filter (\<lambda>a. \<forall>m. n \<le> m \<and> m < n' \<longrightarrow> \<not> fence_passed s (gpu m) a) P = [])"
  using assms
proof (induction k arbitrary: s n U P)
  case 0
  have h: "(m_pendingPages s = None) = (P = [])"
    by (rule arena_pending_head[OF "0.prems"(1)])
  have nr: "(n \<le> m \<and> m < n) = False" for m by auto
  have e: "filter (\<lambda>a. \<forall>m. n \<le> m \<and> m < n \<longrightarrow> \<not> fence_passed s (gpu m) a) P = P"
    "{a \<in> set P. \<exists>m. n \<le> m \<and> m < n \<and> fence_passed s (gpu m) a} = {}"
    by (simp_all add: nr)
  show ?case
    using "0.prems"(1) h
    by (intro exI[of _ "P = []"] exI[of _ n] exI[of _ s] exI[of _ U]) (simp add: e)
next
  case (Suc k)
  show ?case
  proof (cases "P = []")
    case True
    then have "m_pendingPages s = None"
      using arena_pending_head[OF Suc.prems(1)] by simp
    then show ?thesis
      using Suc.prems(1) True
      by (intro exI[of _ True] exI[of _ n] exI[of _ s] exI[of _ U]) simp
  next
    case False
    then have hd: "m_pendingPages s \<noteq> None"
      using arena_pending_head[OF Suc.prems(1)] by simp
    let ?U' = "rev (filter (fence_passed s (gpu n)) P) @ U"
    let ?P' = "filter (\<lambda>a. \<not> fence_passed s (gpu n) a) P"
    from RetirePendingPages_arena[OF Suc.prems(1,2), of "gpu n"] obtain s' where s':
      "RetirePendingPages dbg (gpu n) s = Some (Inr s')" "arena s' ?U' S ?P'"
      "contents s' = (\<lambda>a. if a \<in> set P \<and> fence_passed s (gpu n) a
          then map_option (\<lambda>q. q\<lparr>mOffset := 0\<rparr>) (contents s a) else contents s a)"
      "counters s' =
        (m_increment s, m_numPending s - length (filter (fence_passed s (gpu n)) P),
         m_totalPages s)"
      "pending_asserts dbg s' ?P'"
      by blast
    have same: "fence_passed s' c a = fence_passed s c a" if "a \<in> set ?P'" for a c
      by (rule fence_passed_contents) (use that in \<open>simp add: s'(3)\<close>)
    from Suc.IH[OF s'(2,5), of "Suc n"] obtain ended n' s1 U1 where r:
      "wait_pending dbg gpu k (Suc n) s' = Some (Inr (ended, n', s1))"
      "arena s1 U1 S
         (filter (\<lambda>a. \<forall>m. Suc n \<le> m \<and> m < n' \<longrightarrow> \<not> fence_passed s' (gpu m) a) ?P')"
      "set U1 = set ?U' \<union>
         {a \<in> set ?P'. \<exists>m. Suc n \<le> m \<and> m < n' \<and> fence_passed s' (gpu m) a}"
      "m_totalPages s1 = m_totalPages s'" "Suc n \<le> n'" "n' \<le> Suc n + k"
      "\<not> ended \<longrightarrow> n' = Suc n + k"
      "ended =
         (filter (\<lambda>a. \<forall>m. Suc n \<le> m \<and> m < n' \<longrightarrow> \<not> fence_passed s' (gpu m) a) ?P' = [])"
      by blast
    have split: "(\<forall>m. n \<le> m \<and> m < n' \<longrightarrow> Q m) =
        (Q n \<and> (\<forall>m. Suc n \<le> m \<and> m < n' \<longrightarrow> Q m))" for Q
    proof
      assume h: "\<forall>m. n \<le> m \<and> m < n' \<longrightarrow> Q m"
      with r(5) show "Q n \<and> (\<forall>m. Suc n \<le> m \<and> m < n' \<longrightarrow> Q m)" by auto
    next
      assume h: "Q n \<and> (\<forall>m. Suc n \<le> m \<and> m < n' \<longrightarrow> Q m)"
      show "\<forall>m. n \<le> m \<and> m < n' \<longrightarrow> Q m"
      proof (intro allI impI)
        fix m assume "n \<le> m \<and> m < n'"
        then show "Q m" using h by (cases "m = n") auto
      qed
    qed
    have fl: "filter (\<lambda>a. \<forall>m. Suc n \<le> m \<and> m < n' \<longrightarrow> \<not> fence_passed s' (gpu m) a) ?P' =
        filter (\<lambda>a. \<forall>m. n \<le> m \<and> m < n' \<longrightarrow> \<not> fence_passed s (gpu m) a) P"
    proof -
      have "filter (\<lambda>a. \<forall>m. Suc n \<le> m \<and> m < n' \<longrightarrow> \<not> fence_passed s' (gpu m) a) ?P' =
          filter (\<lambda>a. \<forall>m. Suc n \<le> m \<and> m < n' \<longrightarrow> \<not> fence_passed s (gpu m) a) ?P'"
        by (rule filter_cong[OF refl]) (simp add: same)
      also have "\<dots> = filter (\<lambda>a. \<forall>m. n \<le> m \<and> m < n' \<longrightarrow> \<not> fence_passed s (gpu m) a) P"
        unfolding filter_filter
        by (rule filter_cong[OF refl])
          (use split[of "\<lambda>m. \<not> fence_passed s (gpu m) a" for a] in auto)
      finally show ?thesis .
    qed
    have st: "set U1 = set U \<union>
        {a \<in> set P. \<exists>m. n \<le> m \<and> m < n' \<and> fence_passed s (gpu m) a}"
    proof -
      have "{a \<in> set ?P'. \<exists>m. Suc n \<le> m \<and> m < n' \<and> fence_passed s' (gpu m) a} =
          {a \<in> set ?P'. \<exists>m. Suc n \<le> m \<and> m < n' \<and> fence_passed s (gpu m) a}"
        using same by blast
      then have "set U1 = set U \<union> {a \<in> set P. fence_passed s (gpu n) a} \<union>
          {a \<in> set ?P'. \<exists>m. Suc n \<le> m \<and> m < n' \<and> fence_passed s (gpu m) a}"
        using r(3) by auto
      also have "\<dots> = set U \<union>
          {a \<in> set P. \<exists>m. n \<le> m \<and> m < n' \<and> fence_passed s (gpu m) a}"
        using split[of "\<lambda>m. \<not> fence_passed s (gpu m) a" for a] by auto
      finally show ?thesis .
    qed
    have w: "wait_pending dbg gpu (Suc k) n s = Some (Inr (ended, n', s1))"
      using hd s'(1) r(1) by simp
    have t: "m_totalPages s1 = m_totalPages s"
      using r(4) s'(4) by (simp add: counters_def)
    have a: "arena s1 U1 S
        (filter (\<lambda>a. \<forall>m. n \<le> m \<and> m < n' \<longrightarrow> \<not> fence_passed s (gpu m) a) P)"
      using r(2) unfolding fl .
    have e: "ended =
        (filter (\<lambda>a. \<forall>m. n \<le> m \<and> m < n' \<longrightarrow> \<not> fence_passed s (gpu m) a) P = [])"
      using r(8) unfolding fl .
    have b: "n \<le> n'" "n' \<le> n + Suc k" "\<not> ended \<longrightarrow> n' = n + Suc k"
      using r(5,6,7) by simp_all
    show ?thesis
      using w a st t b e by blast
  qed
qed

lemma wait_pending_start:
  assumes "arena s U S P" and "pending_asserts dbg s P"
  shows "\<exists>ended n s1 U1. wait_pending dbg gpu k 0 s = Some (Inr (ended, n, s1)) \<and>
      arena s1 U1 S (filter (\<lambda>a. \<forall>m<n. \<not> fence_passed s (gpu m) a) P) \<and>
      set U1 = set U \<union> {a \<in> set P. \<exists>m<n. fence_passed s (gpu m) a} \<and>
      m_totalPages s1 = m_totalPages s \<and> n \<le> k \<and> (\<not> ended \<longrightarrow> n = k) \<and>
      ended = (filter (\<lambda>a. \<forall>m<n. \<not> fence_passed s (gpu m) a) P = [])"
  using wait_pending_lists[OF assms, of gpu k 0] by simp

text \<open>From a state with no pending page, the rest of the destructor frees every page.\<close>

lemma destructor_frees:
  assumes A1: "arena s1 U1 S []"
  shows "\<exists>s2 s3. FreePages (m_unusedPages s1) s1 = Some (Inr s2) \<and>
     FreePages (m_usedPages s2) s2 = Some (Inr s3) \<and> m_pendingPages s1 = None \<and>
     heap s3 = Map.empty \<and> m_totalPages s3 = m_totalPages s1 - length U1 - length S"
proof -
  from A1 have dU: "dlist (heap s1) None (m_unusedPages s1) U1"
    and dS: "dlist (heap s1) None (m_usedPages s1) S"
    and pend: "m_pendingPages s1 = None"
    and dist: "distinct (U1 @ S)" and dom: "dom (heap s1) = set (U1 @ S)"
    by (simp_all add: arena_def lists_def)
  let ?s2 = "s1\<lparr>heap := (\<lambda>x. if x \<in> set U1 then None else heap s1 x),
                  m_totalPages := m_totalPages s1 - length U1\<rparr>"
  have f1: "FreePages (m_unusedPages s1) s1 = Some (Inr ?s2)"
    by (rule FreePages_list[OF dlist_slist[OF dU]]) (use dist in simp)
  have sl: "slist (heap ?s2) (m_usedPages ?s2) S"
  proof -
    have "\<And>a. a \<in> set S \<Longrightarrow> heap ?s2 a = heap s1 a"
      using dist by auto
    from slist_frame[OF dlist_slist[OF dS] this] show ?thesis by simp
  qed
  let ?s3 = "?s2\<lparr>heap := (\<lambda>x. if x \<in> set S then None else heap ?s2 x),
                  m_totalPages := m_totalPages ?s2 - length S\<rparr>"
  have f2: "FreePages (m_usedPages ?s2) ?s2 = Some (Inr ?s3)"
    by (rule FreePages_list[OF sl]) (use dist in simp)
  have empty: "heap ?s3 = Map.empty"
  proof
    fix x
    show "heap ?s3 x = None"
      using dom by (cases "heap s1 x") auto
  qed
  show ?thesis
    using f1 f2 pend empty by (intro exI[of _ ?s2] exI[of _ ?s3]) simp
qed

text \<open>
  The two things that can be seen of the destructor when \<open>k\<close> passes are followed.
\<close>

lemma destructor_cases:
  assumes A: "arena s U S P" and D: "pending_asserts dbg s P"
  obtains (blocked) s1 U1 where
      "destructor dbg gpu k s = Some (Inr (Blocked k s1))"
      "\<exists>a\<in>set P. \<forall>m<k. \<not> fence_passed s (gpu m) a"
      "arena s1 U1 S (filter (\<lambda>a. \<forall>m<k. \<not> fence_passed s (gpu m) a) P)"
      "dom (heap s1) = dom (heap s)"
  | (returned) n s1 s' U1 where
      "destructor dbg gpu k s = Some (Inr (Returned n s1 s'))" "n \<le> k"
      "\<forall>a\<in>set P. \<exists>m<n. fence_passed s (gpu m) a"
      "arena s1 U1 S []" "set U1 = set U \<union> set P" "dom (heap s1) = dom (heap s)"
      "heap s' = Map.empty" "m_pendingPages s' = None" "m_usedPages s' = None"
      "m_unusedPages s' = None" "m_increment s' = 0"
      "m_totalPages s' = m_totalPages s - (length U + length S + length P)"
proof -
  from wait_pending_start[OF A D, of gpu k] obtain ended n s1 U1 where
    w: "wait_pending dbg gpu k 0 s = Some (Inr (ended, n, s1))"
    and A1: "arena s1 U1 S (filter (\<lambda>a. \<forall>m<n. \<not> fence_passed s (gpu m) a) P)"
    and U1: "set U1 = set U \<union> {a \<in> set P. \<exists>m<n. fence_passed s (gpu m) a}"
    and t: "m_totalPages s1 = m_totalPages s" and nk: "n \<le> k"
    and blk: "\<not> ended \<longrightarrow> n = k"
    and e: "ended = (filter (\<lambda>a. \<forall>m<n. \<not> fence_passed s (gpu m) a) P = [])"
    by blast
  let ?P1 = "filter (\<lambda>a. \<forall>m<n. \<not> fence_passed s (gpu m) a) P"
  from A have dom: "dom (heap s) = set (U @ S @ P)" and dist: "distinct (U @ S @ P)"
    by (simp_all add: arena_def lists_def)
  from A1 have dom1: "dom (heap s1) = set (U1 @ S @ ?P1)" and dist1: "distinct (U1 @ S @ ?P1)"
    by (simp_all add: arena_def lists_def)
  have live: "dom (heap s1) = dom (heap s)"
    unfolding dom dom1 using U1 by auto
  show ?thesis
  proof (cases ended)
    case False
    then have n: "n = k" using blk by simp
    from False e obtain a where "a \<in> set ?P1" by (cases ?P1) auto
    then have 1: "\<exists>a\<in>set P. \<forall>m<k. \<not> fence_passed s (gpu m) a"
      using n by auto
    have 2: "destructor dbg gpu k s = Some (Inr (Blocked k s1))"
      using w False n by (simp add: destructor_def bind_res_def)
    show ?thesis
      by (rule blocked[OF 2 1 A1[unfolded n] live])
  next
    case True
    with e have empty: "?P1 = []" by simp
    then have passed: "\<forall>a\<in>set P. \<exists>m<n. fence_passed s (gpu m) a"
      by (auto simp: filter_empty_conv)
    from A1 empty have A1': "arena s1 U1 S []" by simp
    from U1 passed have set1: "set U1 = set U \<union> set P" by auto
    from dist1 dist have "distinct U1" "distinct (U @ P)" by auto
    then have len: "length U1 = length U + length P"
      using set1 distinct_card[of U1] distinct_card[of "U @ P"] by simp
    from destructor_frees[OF A1'] obtain s2 s3 where
      f: "FreePages (m_unusedPages s1) s1 = Some (Inr s2)"
        "FreePages (m_usedPages s2) s2 = Some (Inr s3)" "m_pendingPages s1 = None"
        "heap s3 = Map.empty" "m_totalPages s3 = m_totalPages s1 - length U1 - length S"
      by blast
    let ?s' = "s3\<lparr>m_pendingPages := None, m_usedPages := None, m_unusedPages := None,
        m_increment := 0\<rparr>"
    have 1: "destructor dbg gpu k s = Some (Inr (Returned n s1 ?s'))"
      using w True f(1,2,3) by (simp add: destructor_def bind_res_def)
    have 2: "m_totalPages ?s' = m_totalPages s - (length U + length S + length P)"
      using f(5) t len by simp
    show ?thesis
      by (rule returned[OF 1 nk passed A1' set1 live _ _ _ _ _ 2]) (simp_all add: f(4))
  qed
qed

text \<open>
  Claim C6. In a state whose lists are \<open>U\<close>, \<open>S\<close> and \<open>P\<close> (with, in a debug build, what
  the retire loop asserts), where \<open>gpu n\<close> is what the fences report during the \<open>n\<close>-th
  pass of \<open>RetirePendingPages\<close>, the destructor, followed for at most \<open>k\<close> passes of its
  loop,
  \<^item> either is still in the loop after the \<open>k\<close> passes: then the fence of some pending
    page has not been seen passed in any of these passes, the pages of which this holds
    are still pending, and no page has been freed: the live pages are those of the
    start;
  \<^item> or has returned after \<open>n \<le> k\<close> passes: then the state \<open>s1\<close> on which \<open>FreePages\<close> is
    first called is the one in which the loop ended; in \<open>s1\<close> no page has been freed yet,
    the pending list is empty, and every page that was pending has had its fence seen
    passed in one of the \<open>n\<close> passes and is in the unused list; the calls of \<open>FreePages\<close>
    then free every page, those that remained in the used list \<open>S\<close> included: the
    destructor returns with an empty store, null list heads and the count of pages
    reduced by the pages freed.

  If every pending page is at some pass seen with its fence passed, the destructor
  returns once enough passes are followed; if the fence of some pending page is never
  seen passed, the destructor is still in its loop after any number of passes, so it
  frees nothing.
\<close>

theorem destructor_correct:
  assumes A: "arena s U S P" and D: "pending_asserts dbg s P"
  shows "(\<exists>r. destructor dbg gpu k s = Some (Inr r) \<and>
     (case r of
        Blocked n s1 \<Rightarrow>
          n = k \<and> (\<exists>a\<in>set P. \<forall>m<k. \<not> fence_passed s (gpu m) a) \<and>
          (\<exists>U1. arena s1 U1 S (filter (\<lambda>a. \<forall>m<k. \<not> fence_passed s (gpu m) a) P)) \<and>
          dom (heap s1) = dom (heap s)
      | Returned n s1 s' \<Rightarrow>
          n \<le> k \<and> (\<forall>a\<in>set P. \<exists>m<n. fence_passed s (gpu m) a) \<and>
          (\<exists>U1. arena s1 U1 S [] \<and> set U1 = set U \<union> set P) \<and>
          dom (heap s1) = dom (heap s) \<and> heap s' = Map.empty \<and>
          m_pendingPages s' = None \<and> m_usedPages s' = None \<and> m_unusedPages s' = None \<and>
          m_increment s' = 0 \<and>
          m_totalPages s' = m_totalPages s - (length U + length S + length P))) \<and>
    ((\<forall>a\<in>set P. \<exists>n. fence_passed s (gpu n) a) \<longrightarrow>
       (\<exists>j n s1 s'. destructor dbg gpu j s = Some (Inr (Returned n s1 s')))) \<and>
    ((\<exists>a\<in>set P. \<forall>n. \<not> fence_passed s (gpu n) a) \<longrightarrow>
       (\<forall>j. \<exists>s1. destructor dbg gpu j s = Some (Inr (Blocked j s1))))"
proof (intro conjI impI)
  show "\<exists>r. destructor dbg gpu k s = Some (Inr r) \<and>
     (case r of
        Blocked n s1 \<Rightarrow>
          n = k \<and> (\<exists>a\<in>set P. \<forall>m<k. \<not> fence_passed s (gpu m) a) \<and>
          (\<exists>U1. arena s1 U1 S (filter (\<lambda>a. \<forall>m<k. \<not> fence_passed s (gpu m) a) P)) \<and>
          dom (heap s1) = dom (heap s)
      | Returned n s1 s' \<Rightarrow>
          n \<le> k \<and> (\<forall>a\<in>set P. \<exists>m<n. fence_passed s (gpu m) a) \<and>
          (\<exists>U1. arena s1 U1 S [] \<and> set U1 = set U \<union> set P) \<and>
          dom (heap s1) = dom (heap s) \<and> heap s' = Map.empty \<and>
          m_pendingPages s' = None \<and> m_usedPages s' = None \<and> m_unusedPages s' = None \<and>
          m_increment s' = 0 \<and>
          m_totalPages s' = m_totalPages s - (length U + length S + length P))"
  proof (rule destructor_cases[OF A D, of gpu k])
    fix s1 U1
    assume "destructor dbg gpu k s = Some (Inr (Blocked k s1))"
      "\<exists>a\<in>set P. \<forall>m<k. \<not> fence_passed s (gpu m) a"
      "arena s1 U1 S (filter (\<lambda>a. \<forall>m<k. \<not> fence_passed s (gpu m) a) P)"
      "dom (heap s1) = dom (heap s)"
    then show ?thesis
      by (intro exI[of _ "Blocked k s1"]) auto
  next
    fix n s1 s' U1
    assume "destructor dbg gpu k s = Some (Inr (Returned n s1 s'))" "n \<le> k"
      "\<forall>a\<in>set P. \<exists>m<n. fence_passed s (gpu m) a"
      "arena s1 U1 S []" "set U1 = set U \<union> set P" "dom (heap s1) = dom (heap s)"
      "heap s' = Map.empty" "m_pendingPages s' = None" "m_usedPages s' = None"
      "m_unusedPages s' = None" "m_increment s' = 0"
      "m_totalPages s' = m_totalPages s - (length U + length S + length P)"
    then show ?thesis
      by (intro exI[of _ "Returned n s1 s'"]) auto
  qed
next
  assume "\<forall>a\<in>set P. \<exists>n. fence_passed s (gpu n) a"
  from uniform_bound[OF this] obtain j where
    j: "\<forall>a\<in>set P. \<exists>m. m < j \<and> fence_passed s (gpu m) a" by blast
  show "\<exists>j n s1 s'. destructor dbg gpu j s = Some (Inr (Returned n s1 s'))"
  proof (rule destructor_cases[OF A D, of gpu j])
    fix s1 U1
    assume "\<exists>a\<in>set P. \<forall>m<j. \<not> fence_passed s (gpu m) a"
    with j show ?thesis by blast
  next
    fix n s1 s'
    assume "destructor dbg gpu j s = Some (Inr (Returned n s1 s'))"
    then show ?thesis by blast
  qed
next
  assume never: "\<exists>a\<in>set P. \<forall>n. \<not> fence_passed s (gpu n) a"
  show "\<forall>j. \<exists>s1. destructor dbg gpu j s = Some (Inr (Blocked j s1))"
  proof
    fix j
    show "\<exists>s1. destructor dbg gpu j s = Some (Inr (Blocked j s1))"
    proof (rule destructor_cases[OF A D, of gpu j])
      fix s1
      assume "destructor dbg gpu j s = Some (Inr (Blocked j s1))"
      then show ?thesis by blast
    next
      fix n
      assume "\<forall>a\<in>set P. \<exists>m<n. fence_passed s (gpu m) a"
      with never show ?thesis by blast
    qed
  qed
qed

lemma fence_passed_example:
  "fence_passed example_arena c 13 = (5 \<le> c 13)" "fence_passed example_arena c 14 = (2 \<le> c 14)"
  by (simp_all add: fence_passed_def example_arena_def example_page_def)

text \<open>
  In the example the pages 13 and 14 wait for the fence values 5 and 2. With fences that
  report \<open>n + 2\<close> during the pass \<open>n\<close>, the destructor is still in its loop after two
  passes, page 13 is still pending and the five pages are live; followed for nine
  passes it has returned, after four passes or more, and no page is left. With fences
  that report 3 for ever it is still in its loop after seven passes.
\<close>

theorem destructor_correct_witness:
  "arena example_arena [10] [11, 12] [13, 14] \<and> pending_asserts True example_arena [13, 14] \<and>
   (\<exists>s1. destructor True (\<lambda>n a. n + 2) 2 example_arena = Some (Inr (Blocked 2 s1)) \<and>
      (\<exists>U1. arena s1 U1 [11, 12] [13]) \<and> dom (heap s1) = dom (heap example_arena)) \<and>
   (\<exists>n s1 s'. destructor True (\<lambda>n a. n + 2) 9 example_arena = Some (Inr (Returned n s1 s')) \<and>
      4 \<le> n \<and> (\<exists>U1. arena s1 U1 [11, 12] []) \<and> dom (heap s1) = dom (heap example_arena) \<and>
      heap s' = Map.empty) \<and>
   (\<exists>s1. destructor True (\<lambda>n a. 3) 7 example_arena = Some (Inr (Blocked 7 s1)))"
proof -
  define g :: "nat \<Rightarrow> addr \<Rightarrow> nat" where "g = (\<lambda>n a. n + 2)"
  note t = destructor_correct[OF arena_example pending_asserts_example]
  have p: "fence_passed example_arena (g m) 13 = (3 \<le> m)"
    "fence_passed example_arena (g m) 14" for m
    by (auto simp: fence_passed_example g_def)
  have e13: "\<forall>m<2. \<not> fence_passed example_arena (g m) 13"
    by (simp add: p)
  have e14: "\<not> (\<forall>m<k. \<not> fence_passed example_arena (g m) 14)" if "0 < k" for k
    using that by (auto simp: p)
  have l13: "\<not> (\<forall>m<9. \<not> fence_passed example_arena (g m) 13)"
    by (simp add: p) (rule exI[of _ 3], simp)
  have a: "\<exists>s1. destructor True g 2 example_arena = Some (Inr (Blocked 2 s1)) \<and>
      (\<exists>U1. arena s1 U1 [11, 12] [13]) \<and> dom (heap s1) = dom (heap example_arena)"
  proof -
    from t[of g 2, THEN conjunct1] obtain r where
      r: "destructor True g 2 example_arena = Some (Inr r)"
      and c: "case r of
        Blocked n s1 \<Rightarrow>
          n = 2 \<and> (\<exists>a\<in>set [13, 14]. \<forall>m<2. \<not> fence_passed example_arena (g m) a) \<and>
          (\<exists>U1. arena s1 U1 [11, 12]
             (filter (\<lambda>a. \<forall>m<2. \<not> fence_passed example_arena (g m) a) [13, 14])) \<and>
          dom (heap s1) = dom (heap example_arena)
      | Returned n s1 s' \<Rightarrow>
          n \<le> 2 \<and> (\<forall>a\<in>set [13, 14]. \<exists>m<n. fence_passed example_arena (g m) a) \<and>
          (\<exists>U1. arena s1 U1 [11, 12] [] \<and> set U1 = set [10] \<union> set [13, 14]) \<and>
          dom (heap s1) = dom (heap example_arena) \<and> heap s' = Map.empty \<and>
          m_pendingPages s' = None \<and> m_usedPages s' = None \<and> m_unusedPages s' = None \<and>
          m_increment s' = 0 \<and>
          m_totalPages s' = m_totalPages example_arena -
            (length [10::addr] + length [11::addr, 12] + length [13::addr, 14])"
      by blast
    have "\<not> (\<forall>m<2. \<not> fence_passed example_arena (g m) 14)"
      by (rule e14) simp
    then have fl: "filter (\<lambda>a. \<forall>m<2. \<not> fence_passed example_arena (g m) a) [13, 14] = [13]"
      using e13 by simp
    show ?thesis
    proof (cases r)
      case (Blocked n s1)
      with c[unfolded fl] have f: "n = 2" "\<exists>U1. arena s1 U1 [11, 12] [13]"
        "dom (heap s1) = dom (heap example_arena)"
        by simp_all
      from r Blocked f(1) have "destructor True g 2 example_arena = Some (Inr (Blocked 2 s1))"
        by simp
      with f(2,3) show ?thesis
        by (intro exI[of _ s1] conjI)
    next
      case (Returned n s1 s')
      with c have "n \<le> 2" "\<exists>m<n. fence_passed example_arena (g m) 13" by simp_all
      then show ?thesis by (auto simp: p)
    qed
  qed
  have b: "\<exists>n s1 s'. destructor True g 9 example_arena = Some (Inr (Returned n s1 s')) \<and>
      4 \<le> n \<and> (\<exists>U1. arena s1 U1 [11, 12] []) \<and> dom (heap s1) = dom (heap example_arena) \<and>
      heap s' = Map.empty"
  proof -
    from t[of g 9, THEN conjunct1] obtain r where
      r: "destructor True g 9 example_arena = Some (Inr r)"
      and c: "case r of
        Blocked n s1 \<Rightarrow>
          n = 9 \<and> (\<exists>a\<in>set [13, 14]. \<forall>m<9. \<not> fence_passed example_arena (g m) a) \<and>
          (\<exists>U1. arena s1 U1 [11, 12]
             (filter (\<lambda>a. \<forall>m<9. \<not> fence_passed example_arena (g m) a) [13, 14])) \<and>
          dom (heap s1) = dom (heap example_arena)
      | Returned n s1 s' \<Rightarrow>
          n \<le> 9 \<and> (\<forall>a\<in>set [13, 14]. \<exists>m<n. fence_passed example_arena (g m) a) \<and>
          (\<exists>U1. arena s1 U1 [11, 12] [] \<and> set U1 = set [10] \<union> set [13, 14]) \<and>
          dom (heap s1) = dom (heap example_arena) \<and> heap s' = Map.empty \<and>
          m_pendingPages s' = None \<and> m_usedPages s' = None \<and> m_unusedPages s' = None \<and>
          m_increment s' = 0 \<and>
          m_totalPages s' = m_totalPages example_arena -
            (length [10::addr] + length [11::addr, 12] + length [13::addr, 14])"
      by blast
    show ?thesis
    proof (cases r)
      case (Blocked n s1)
      with c have "(\<forall>m<9. \<not> fence_passed example_arena (g m) 13) \<or>
          (\<forall>m<9. \<not> fence_passed example_arena (g m) 14)"
        by simp
      moreover have "\<not> (\<forall>m<9. \<not> fence_passed example_arena (g m) 14)"
        by (rule e14) simp
      ultimately have False using l13 by (elim disjE) simp_all
      then show ?thesis ..
    next
      case (Returned n s1 s')
      with c have c': "(\<forall>a\<in>set [13, 14]. \<exists>m<n. fence_passed example_arena (g m) a) \<and>
          (\<exists>U1. arena s1 U1 [11, 12] [] \<and> set U1 = set [10] \<union> set [13, 14]) \<and>
          dom (heap s1) = dom (heap example_arena) \<and> heap s' = Map.empty"
        by (simp only: outcome.case) blast
      then have f: "\<exists>m<n. fence_passed example_arena (g m) 13"
        "\<exists>U1. arena s1 U1 [11, 12] []" "dom (heap s1) = dom (heap example_arena)"
        "heap s' = Map.empty"
        by (simp, blast, simp, simp)
      from f(1) have n4: "4 \<le> n" by (auto simp: p)
      from r Returned have "destructor True g 9 example_arena = Some (Inr (Returned n s1 s'))"
        by simp
      with n4 f(2,3,4) show ?thesis
        by (intro exI[of _ n] exI[of _ s1] exI[of _ s'] conjI)
    qed
  qed
  have "\<forall>j. \<exists>s1. destructor True (\<lambda>n a. 3) j example_arena = Some (Inr (Blocked j s1))"
    by (rule t[of "\<lambda>n a. 3" 0, THEN conjunct2, THEN conjunct2, THEN mp])
      (simp add: fence_passed_example)
  then have c: "\<exists>s1. destructor True (\<lambda>n a. 3) 7 example_arena = Some (Inr (Blocked 7 s1))"
    by (rule spec)
  note a' = a[unfolded g_def] and b' = b[unfolded g_def]
  show ?thesis
    by (intro conjI) (rule arena_example pending_asserts_example a' b' c)+
qed

section \<open>The calls of the owner, on the lists\<close>

lemma and_pred_nat:
  "(n::nat) AND (n - 1) = 0 \<Longrightarrow> n = 0 \<or> (\<exists>k. n = 2 ^ k)"
proof (induction n rule: less_induct)
  case (less n)
  show ?case
  proof (cases "n \<le> 1")
    case True
    then have "n = 0 \<or> n = 2 ^ 0" by auto
    then show ?thesis by blast
  next
    case False
    then have n2: "2 \<le> n" by simp
    show ?thesis
    proof (cases "even n")
      case True
      then obtain m where m: "n = 2 * m" by (auto elim: evenE)
      with n2 have m1: "1 \<le> m" by simp
      have "n - 1 = 2 * (m - 1) + 1" using m m1 by simp
      then have "n AND (n - 1) = 2 * (m AND (m - 1))"
        using m m1 by (subst and_nat_unfold) (simp add: and_nat_unfold[of m "m - 1"])
      with less.prems have "m AND (m - 1) = 0" by simp
      moreover have "m < n" using m m1 by simp
      ultimately have "m = 0 \<or> (\<exists>k. m = 2 ^ k)" by (rule less.IH[rotated])
      with m1 obtain k where "m = 2 ^ k" by auto
      with m have "n = 2 ^ Suc k" by simp
      then show ?thesis by blast
    next
      case False
      then obtain m where m: "n = 2 * m + 1" by (auto elim: oddE)
      with n2 have m1: "1 \<le> m" by simp
      have "n - 1 = 2 * m" using m by simp
      then have "n AND (n - 1) = 2 * m"
        using m m1 by (subst and_nat_unfold) simp
      with less.prems m1 show ?thesis by simp
    qed
  qed
qed

text \<open>The test of \<open>AlignOffset\<close>'s assertion holds of 0 and of the powers of two only.\<close>

lemma and_pred_word:
  fixes x :: size_t
  assumes "x AND (x - 1) = 0"
  shows "x = 0 \<or> (\<exists>k<64. x = 2 ^ k)"
proof (cases "x = 0")
  case True
  then show ?thesis by simp
next
  case False
  then have "unat (x - 1) = unat x - 1"
    by (simp add: unat_minus_one)
  moreover have "unat (x AND (x - 1)) = unat x AND unat (x - 1)"
    by (simp add: unsigned_and_eq)
  ultimately have "unat x AND (unat x - 1) = 0"
    using assms by simp
  from and_pred_nat[OF this] False obtain k where k: "unat x = 2 ^ k"
    by (auto simp: unat_eq_0)
  have "unat x < 2 ^ 64"
    using unsigned_less[of x] by simp
  with k have k64: "k < 64"
    using power_less_imp_less_exp[of "2::nat" k 64] by simp
  have "x = of_nat (unat x)" by simp
  also have "\<dots> = 2 ^ k" unfolding k by simp
  finally show ?thesis using k64 by blast
qed

lemma contents_store: "contents (store a pg s) = (contents s)(a \<mapsto> unlinked pg)"
  by (rule ext) (simp add: contents_def store_def)

lemma cursor_alt:
  "cursor s a = (case contents s a of None \<Rightarrow> 0 | Some q \<Rightarrow> unat (mOffset q))"
  by (cases "heap s a") (simp_all add: cursor_def contents_def unlinked_def)

lemma fence_alt:
  "fence s a = (case contents s a of None \<Rightarrow> 0 | Some q \<Rightarrow> mPendingFence q)"
  by (cases "heap s a") (simp_all add: fence_def contents_def unlinked_def)

lemma contents_None: "(contents s a = None) = (heap s a = None)"
  by (simp add: contents_def)

lemma arena_store_data:
  assumes A: "arena s U S P" and pg: "heap s a = Some pg"
    and q: "pPrevPage q = pPrevPage pg" "pNextPage q = pNextPage pg"
  shows "arena (store a q s) U S P"
proof -
  have "dom (heap (store a q s)) = dom (heap s)"
    using pg by (auto simp: store_def)
  then show ?thesis
    using A lists_store_data[OF _ pg q, of U S P] by (simp add: arena_def)
qed

lemma FindPageForAlloc_list_sound:
  assumes "slist (heap s) p as"
    and "FindPageForAlloc_list dbg s p sz al = Some (Inr (Some q))"
  shows "q \<in> set as \<and>
     (\<exists>pg offset. heap s q = Some pg \<and> AlignOffset dbg (mOffset pg) al = Inr offset \<and>
        offset + sz \<le> m_increment s)"
  using assms
proof (induction as arbitrary: p)
  case Nil
  then have "p = None" by simp
  with Nil.prems(2) show ?case
    by (subst (asm) FindPageForAlloc_list.simps) simp
next
  case (Cons a as)
  from Cons.prems(1) obtain pg where p: "p = Some a" and pg: "heap s a = Some pg"
    and sl: "slist (heap s) (pNextPage pg) as"
    by (auto split: option.splits)
  show ?case
  proof (cases "AlignOffset dbg (mOffset pg) al")
    case (Inl e)
    have "FindPageForAlloc_list dbg s p sz al = Some (Inl e)"
      by (subst FindPageForAlloc_list.simps) (simp add: p pg Inl)
    with Cons.prems(2) show ?thesis by simp
  next
    case (Inr offset)
    have unf: "FindPageForAlloc_list dbg s p sz al =
        (if offset + sz \<le> m_increment s then Some (Inr (Some a))
         else FindPageForAlloc_list dbg s (pNextPage pg) sz al)"
      by (subst FindPageForAlloc_list.simps) (simp add: p pg Inr)
    show ?thesis
    proof (cases "offset + sz \<le> m_increment s")
      case True
      with Cons.prems(2) unf have "q = a" by simp
      then show ?thesis using pg Inr True by auto
    next
      case False
      with Cons.prems(2) unf
      have "FindPageForAlloc_list dbg s (pNextPage pg) sz al = Some (Inr (Some q))"
        by simp
      from Cons.IH[OF sl this] show ?thesis by auto
    qed
  qed
qed

text \<open>
  A call of \<open>FindPageForAlloc\<close> that returns a page has found it in the used list, where
  the request passed the test of the scan, or has taken a clean page.
\<close>

lemma FindPageForAlloc_cases:
  assumes L: "lists s U S P" and R: "FindPageForAlloc dbg b sz al s = Some (Inr (p, s1))"
  shows "(s1 = s \<and> p \<in> set S \<and>
            (\<exists>pg offset. heap s p = Some pg \<and> AlignOffset dbg (mOffset pg) al = Inr offset \<and>
               offset + sz \<le> m_increment s)) \<or>
         GetCleanPageForAlloc dbg b s = Inr (Some p, s1)"
    and "dbg \<longrightarrow> sz \<noteq> 0 \<and> sz \<le> m_increment s \<and> al \<le> m_increment s"
proof -
  show "dbg \<longrightarrow> sz \<noteq> 0 \<and> sz \<le> m_increment s \<and> al \<le> m_increment s"
    using R by (auto simp: FindPageForAlloc_def not_less split: if_splits)
  from R have G: "GetPageForAlloc dbg b sz al s = Some (Inr (Some p, s1))"
    by (auto simp: FindPageForAlloc_def bind_res_def
        split: if_splits option.splits sum.splits prod.splits)
  from L have "dlist (heap s) None (m_usedPages s) S"
    by (simp add: lists_def)
  then have sl: "slist (heap s) (m_usedPages s) S"
    by (rule dlist_slist)
  show "(s1 = s \<and> p \<in> set S \<and>
            (\<exists>pg offset. heap s p = Some pg \<and> AlignOffset dbg (mOffset pg) al = Inr offset \<and>
               offset + sz \<le> m_increment s)) \<or>
         GetCleanPageForAlloc dbg b s = Inr (Some p, s1)"
  proof (cases "sz = m_increment s \<and> (al = 0 \<or> al = m_increment s)")
    case True
    then show ?thesis using G by (simp add: GetPageForAlloc_def)
  next
    case False
    with G have B: "bind_res (FindPageForAlloc_list dbg s (m_usedPages s) sz al)
        (\<lambda>page. case page of None \<Rightarrow> Some (GetCleanPageForAlloc dbg b s)
                 | Some p \<Rightarrow> Some (Inr (Some p, s))) = Some (Inr (Some p, s1))"
      by (simp add: GetPageForAlloc_def)
    then obtain r where r: "FindPageForAlloc_list dbg s (m_usedPages s) sz al = Some (Inr r)"
      by (auto simp: bind_res_def split: option.splits sum.splits)
    show ?thesis
    proof (cases r)
      case None
      with B r show ?thesis by (simp add: bind_res_def)
    next
      case (Some q)
      with B r have "q = p" "s1 = s" by (simp_all add: bind_res_def)
      with FindPageForAlloc_list_sound[OF sl r[unfolded Some]] show ?thesis by simp
    qed
  qed
qed

lemma GetCleanPageForAlloc_cases:
  assumes A: "arena s U S P" and z: "dbg \<longrightarrow> (\<forall>a\<in>set U. cursor s a = 0)"
    and F: "fresh b s" and R: "GetCleanPageForAlloc dbg b s = Inr (Some p, s1)"
  shows "\<exists>U1. arena s1 U1 (p # S) P \<and>
      (U = p # U1 \<and> contents s1 = contents s \<and> counters s1 = counters s \<or>
       U = [] \<and> U1 = [] \<and> heap s p = None \<and>
         contents s1 = (contents s)(p \<mapsto> LinearAllocatorPage\<lparr>mSize := m_increment s\<rparr>) \<and>
         counters s1 = (m_increment s, m_numPending s, m_totalPages s + 1))"
proof (cases U)
  case Nil
  from A have L: "lists s [] S P" and dom: "dom (heap s) = set ([] @ S @ P)"
    by (simp_all add: arena_def Nil)
  then have none: "m_unusedPages s = None" by (simp add: lists_def)
  show ?thesis
  proof (cases b)
    case (Creates a)
    with F have fr: "heap s a = None" by (simp add: fresh_def)
    from GetCleanPageForAlloc_new[OF L fr, of dbg] R Creates obtain
      "p = a" "lists s1 [] (a # S) P"
      "contents s1 = (contents s)(a \<mapsto> LinearAllocatorPage\<lparr>mSize := m_increment s\<rparr>)"
      "counters s1 = (m_increment s, m_numPending s, m_totalPages s + 1)"
      "dom (heap s1) = insert a (dom (heap s))"
      by auto
    then show ?thesis
      using Nil fr dom by (auto simp: arena_def)
  qed (use R GetCleanPageForAlloc_fails[OF none, of dbg] in simp_all)
next
  case (Cons u U')
  from A have L: "lists s (u # U') S P" and dom: "dom (heap s) = set ((u # U') @ S @ P)"
    by (simp_all add: arena_def Cons)
  have z': "dbg \<longrightarrow> (\<forall>pg. heap s u = Some pg \<longrightarrow> mOffset pg = 0)"
    using z Cons by (auto simp: cursor_def unat_eq_0)
  from GetCleanPageForAlloc_unused[OF L z', of b] R obtain
      "p = u" "lists s1 U' (u # S) P" "contents s1 = contents s" "counters s1 = counters s"
      "dom (heap s1) = dom (heap s)"
    by auto
  then show ?thesis
    using Cons dom by (auto simp: arena_def)
qed

lemma unlinked_fields [simp]:
  "mSize (unlinked pg) = mSize pg" "mOffset (unlinked pg) = mOffset pg"
  "mPendingFence (unlinked pg) = mPendingFence pg" "mRefCount (unlinked pg) = mRefCount pg"
  by (simp_all add: unlinked_def)

lemma contents_Some_iff:
  "(contents s a = Some q) = (\<exists>pg. heap s a = Some pg \<and> q = unlinked pg)"
  by (cases "heap s a") (auto simp: contents_def)

lemma sized_alt:
  "(\<forall>a pg. heap s a = Some pg \<longrightarrow> mSize pg = i) =
   (\<forall>a q. contents s a = Some q \<longrightarrow> mSize q = i)"
proof (intro iffI allI impI)
  fix a q
  assume "\<forall>a pg. heap s a = Some pg \<longrightarrow> mSize pg = i" and "contents s a = Some q"
  then show "mSize q = i" by (auto simp: contents_Some_iff)
next
  fix a pg
  assume h: "\<forall>a q. contents s a = Some q \<longrightarrow> mSize q = i" and "heap s a = Some pg"
  then have "contents s a = Some (unlinked pg)" by (simp add: contents_Some)
  with h have "mSize (unlinked pg) = i" by blast
  then show "mSize pg = i" by simp
qed

lemma invariant_alt:
  "invariant s U S P =
     (arena s U S P \<and> m_numPending s = length P \<and>
      m_totalPages s = length U + length S + length P \<and>
      (\<forall>a\<in>set U. cursor s a = 0) \<and> (\<forall>a\<in>set P. fence s a \<noteq> 0) \<and>
      (\<forall>a q. contents s a = Some q \<longrightarrow> mSize q = m_increment s))"
  unfolding invariant_def sized_alt ..

lemma bounded_alt:
  "bounded s = (\<forall>a q. contents s a = Some q \<longrightarrow> mOffset q \<le> m_increment s)"
  unfolding bounded_def
proof (intro iffI allI impI)
  fix a q
  assume "\<forall>a pg. heap s a = Some pg \<longrightarrow> mOffset pg \<le> m_increment s"
    and "contents s a = Some q"
  then show "mOffset q \<le> m_increment s" by (auto simp: contents_Some_iff)
next
  fix a pg
  assume h: "\<forall>a q. contents s a = Some q \<longrightarrow> mOffset q \<le> m_increment s"
    and "heap s a = Some pg"
  then have "contents s a = Some (unlinked pg)" by (simp add: contents_Some)
  with h have "mOffset (unlinked pg) \<le> m_increment s" by blast
  then show "mOffset pg \<le> m_increment s" by simp
qed

lemma counters_store [simp]: "counters (store a pg s) = counters s"
  by (simp add: counters_def store_def)

lemma counters_eq:
  "counters s' = (i, n, t) \<Longrightarrow> m_increment s' = i \<and> m_numPending s' = n \<and> m_totalPages s' = t"
  by (simp add: counters_def)

lemma acquire_state:
  assumes A: "arena s U S P" and z: "\<forall>a\<in>set U. cursor s a = 0" and F: "fresh b s"
    and R: "FindPageForAlloc dbg b sz al s = Some (Inr (p, s1))"
  shows "\<exists>U1 S1. arena s1 U1 S1 P \<and>
     (p \<in> set S \<and> U1 = U \<and> S1 = S \<and> s1 = s \<and>
        (\<exists>pg offset. heap s p = Some pg \<and> AlignOffset dbg (mOffset pg) al = Inr offset \<and>
           offset + sz \<le> m_increment s) \<or>
      p \<notin> set S \<and> U = p # U1 \<and> S1 = p # S \<and> contents s1 = contents s \<and>
        counters s1 = counters s \<or>
      p \<notin> set S \<and> U = [] \<and> U1 = [] \<and> S1 = p # S \<and> heap s p = None \<and>
        contents s1 = (contents s)(p \<mapsto> LinearAllocatorPage\<lparr>mSize := m_increment s\<rparr>) \<and>
        counters s1 = (m_increment s, m_numPending s, m_totalPages s + 1))"
proof -
  from A have L: "lists s U S P" by (simp add: arena_def)
  from FindPageForAlloc_cases(1)[OF L R] show ?thesis
  proof
    assume "s1 = s \<and> p \<in> set S \<and>
            (\<exists>pg offset. heap s p = Some pg \<and> AlignOffset dbg (mOffset pg) al = Inr offset \<and>
               offset + sz \<le> m_increment s)"
    then show ?thesis using A by blast
  next
    assume G: "GetCleanPageForAlloc dbg b s = Inr (Some p, s1)"
    from GetCleanPageForAlloc_cases[OF A _ F G] z obtain U1 where U1:
      "arena s1 U1 (p # S) P"
      "U = p # U1 \<and> contents s1 = contents s \<and> counters s1 = counters s \<or>
       U = [] \<and> U1 = [] \<and> heap s p = None \<and>
         contents s1 = (contents s)(p \<mapsto> LinearAllocatorPage\<lparr>mSize := m_increment s\<rparr>) \<and>
         counters s1 = (m_increment s, m_numPending s, m_totalPages s + 1)"
      by blast
    from U1(1) have "p \<notin> set S" by (simp add: arena_def lists_def)
    with U1 show ?thesis by blast
  qed
qed

lemma Allocate_unfold:
  assumes "Allocate dbg b sz al s = Some (Inr (off, s'))"
  shows "\<exists>p s1 pg. FindPageForAlloc dbg b sz al s = Some (Inr (p, s1)) \<and> heap s1 p = Some pg \<and>
     AlignOffset dbg (mOffset pg) al = Inr off \<and> (dbg \<longrightarrow> off + sz \<le> mSize pg) \<and>
     s' = store p (pg\<lparr>mOffset := off + sz\<rparr>) s1"
  using assms
  by (auto simp: Allocate_def bind_res_def Suballocate_def not_less
      split: option.splits sum.splits prod.splits if_splits)

lemma Shrink_arena:
  assumes A: "arena s U S P" and R: "Shrink s = Some (Inr s')"
  shows "arena s' [] S P \<and> contents s' = (\<lambda>x. if x \<in> set U then None else contents s x) \<and>
     counters s' = (m_increment s, m_numPending s, m_totalPages s - length U)"
proof -
  from A have dU: "dlist (heap s) None (m_unusedPages s) U"
    and dS: "dlist (heap s) None (m_usedPages s) S"
    and dP: "dlist (heap s) None (m_pendingPages s) P"
    and dist: "distinct (U @ S @ P)" and dom: "dom (heap s) = set (U @ S @ P)"
    by (simp_all add: arena_def lists_def)
  let ?h = "\<lambda>x. if x \<in> set U then None else heap s x"
  have f: "FreePages (m_unusedPages s) s =
      Some (Inr (s\<lparr>heap := ?h, m_totalPages := m_totalPages s - length U\<rparr>))"
    by (rule FreePages_list[OF dlist_slist[OF dU]]) (use dist in simp)
  with R have s': "s' = s\<lparr>heap := ?h, m_totalPages := m_totalPages s - length U,
      m_unusedPages := None\<rparr>"
    by (simp add: Shrink_def bind_res_def)
  have same: "?h a = heap s a" if "a \<in> set (S @ P)" for a
    using that dist by auto
  have dS': "dlist ?h None (m_usedPages s) S"
    by (rule dlist_frame[OF dS]) (use same in simp)
  have dP': "dlist ?h None (m_pendingPages s) P"
    by (rule dlist_frame[OF dP]) (use same in simp)
  have dom': "dom ?h = set (S @ P)"
    using dom dist by (auto simp: dom_def split: if_splits)
  have "arena s' [] S P"
    using dS' dP' dist dom' by (simp add: arena_def lists_def s')
  moreover have "contents s' = (\<lambda>x. if x \<in> set U then None else contents s x)"
    by (rule ext) (simp add: contents_def s')
  moreover have "counters s' = (m_increment s, m_numPending s, m_totalPages s - length U)"
    by (simp add: counters_def s')
  ultimately show ?thesis by blast
qed

lemma reference_arena:
  assumes A: "arena s U S P" and pg: "heap s a = Some pg"
  shows "arena (store a (pg\<lparr>mRefCount := n\<rparr>) s) U S P"
  by (rule arena_store_data[OF A pg]) simp_all

section \<open>The invariant of the allocator\<close>

lemma cursor_store:
  "cursor (store a q s) x = (if x = a then unat (mOffset q) else cursor s x)"
  by (simp add: cursor_def store_def)

lemma fence_store:
  "fence (store a q s) x = (if x = a then mPendingFence q else fence s x)"
  by (simp add: fence_def store_def)

lemma store_fields [simp]:
  "m_increment (store a q s) = m_increment s" "m_numPending (store a q s) = m_numPending s"
  "m_totalPages (store a q s) = m_totalPages s"
  by (simp_all add: store_def)

lemma fence_Some: "heap s a = Some pg \<Longrightarrow> fence s a = mPendingFence pg"
  by (simp add: fence_def)

text \<open>
  An assignment to the cursor of a page that is not unused, or to its count of
  references, keeps the invariant.
\<close>

lemma store_invariant:
  assumes I: "invariant s U S P" and pg: "heap s a = Some pg"
    and q: "pPrevPage q = pPrevPage pg" "pNextPage q = pNextPage pg" "mSize q = mSize pg"
      "mPendingFence q = mPendingFence pg"
    and u: "a \<in> set U \<longrightarrow> mOffset q = mOffset pg"
  shows "invariant (store a q s) U S P"
proof -
  from I have A: "arena s U S P" and n: "m_numPending s = length P"
    and t: "m_totalPages s = length U + length S + length P"
    and c: "\<forall>a\<in>set U. cursor s a = 0" and f: "\<forall>a\<in>set P. fence s a \<noteq> 0"
    and z: "\<forall>a pg. heap s a = Some pg \<longrightarrow> mSize pg = m_increment s"
    by (simp_all add: invariant_def)
  have 1: "arena (store a q s) U S P"
    by (rule arena_store_data[OF A pg q(1,2)])
  have 2: "\<forall>x\<in>set U. cursor (store a q s) x = 0"
    using c u pg by (auto simp: cursor_store cursor_Some)
  have 3: "\<forall>x\<in>set P. fence (store a q s) x \<noteq> 0"
    using f q(4) pg by (auto simp: fence_store fence_Some)
  have 4: "\<forall>x pg'. heap (store a q s) x = Some pg' \<longrightarrow> mSize pg' = m_increment (store a q s)"
    using z q(3) pg by (auto simp: store_def)
  show ?thesis
    unfolding invariant_def using 1 2 3 4 n t by simp
qed

lemma acquire_invariant:
  assumes I: "invariant s U S P" and F: "fresh b s"
    and R: "FindPageForAlloc dbg b sz al s = Some (Inr (p, s1))"
  shows "\<exists>U1 S1 pg. invariant s1 U1 S1 P \<and> m_increment s1 = m_increment s \<and>
     heap s1 p = Some pg \<and> p \<in> set S1 \<and> (\<forall>x. x \<noteq> p \<longrightarrow> contents s1 x = contents s x) \<and>
     (p \<in> set S \<and> U1 = U \<and> S1 = S \<and> s1 = s \<and>
        (\<exists>offset. AlignOffset dbg (mOffset pg) al = Inr offset \<and>
           offset + sz \<le> m_increment s) \<or>
      p \<notin> set S \<and> S1 = p # S \<and> mOffset pg = 0 \<and> cursor s p = 0)"
proof -
  from I have A: "arena s U S P" and n: "m_numPending s = length P"
    and t: "m_totalPages s = length U + length S + length P"
    and c: "\<forall>a\<in>set U. cursor s a = 0" and f: "\<forall>a\<in>set P. fence s a \<noteq> 0"
    and z: "\<forall>a q. contents s a = Some q \<longrightarrow> mSize q = m_increment s"
    by (simp_all add: invariant_alt)
  from A have dist: "distinct (U @ S @ P)" and dom: "dom (heap s) = set (U @ S @ P)"
    by (simp_all add: arena_def lists_def)
  from acquire_state[OF A c F R] obtain U1 S1 where A1: "arena s1 U1 S1 P" and
    cases: "p \<in> set S \<and> U1 = U \<and> S1 = S \<and> s1 = s \<and>
        (\<exists>pg offset. heap s p = Some pg \<and> AlignOffset dbg (mOffset pg) al = Inr offset \<and>
           offset + sz \<le> m_increment s) \<or>
      p \<notin> set S \<and> U = p # U1 \<and> S1 = p # S \<and> contents s1 = contents s \<and>
        counters s1 = counters s \<or>
      p \<notin> set S \<and> U = [] \<and> U1 = [] \<and> S1 = p # S \<and> heap s p = None \<and>
        contents s1 = (contents s)(p \<mapsto> LinearAllocatorPage\<lparr>mSize := m_increment s\<rparr>) \<and>
        counters s1 = (m_increment s, m_numPending s, m_totalPages s + 1)"
    by blast
  from cases show ?thesis
  proof (elim disjE)
    assume "p \<in> set S \<and> U1 = U \<and> S1 = S \<and> s1 = s \<and>
        (\<exists>pg offset. heap s p = Some pg \<and> AlignOffset dbg (mOffset pg) al = Inr offset \<and>
           offset + sz \<le> m_increment s)"
    then show ?thesis using I by auto
  next
    assume h: "p \<notin> set S \<and> U = p # U1 \<and> S1 = p # S \<and> contents s1 = contents s \<and>
        counters s1 = counters s"
    then have cs: "contents s1 = contents s" and
      k: "m_increment s1 = m_increment s" "m_numPending s1 = m_numPending s"
        "m_totalPages s1 = m_totalPages s"
      by (simp_all add: counters_def)
    from h c have c0: "cursor s p = 0" by simp
    from h dom obtain pg0 where "heap s p = Some pg0" by auto
    with cs obtain pg where pg: "heap s1 p = Some pg" and "unlinked pg = unlinked pg0"
      by (metis contents_Some contents_Some_iff)
    have "cursor s1 p = 0"
      using c0 cs by (simp add: cursor_alt)
    with pg have off: "mOffset pg = 0"
      by (simp add: cursor_Some unat_eq_0)
    have "invariant s1 U1 S1 P"
      unfolding invariant_alt using A1 h n t c f z cs k by (auto simp: cursor_alt fence_alt)
    then show ?thesis
      using h k pg off c0 cs by auto
  next
    assume h: "p \<notin> set S \<and> U = [] \<and> U1 = [] \<and> S1 = p # S \<and> heap s p = None \<and>
        contents s1 = (contents s)(p \<mapsto> LinearAllocatorPage\<lparr>mSize := m_increment s\<rparr>) \<and>
        counters s1 = (m_increment s, m_numPending s, m_totalPages s + 1)"
    then have cs: "contents s1 = (contents s)(p \<mapsto> LinearAllocatorPage\<lparr>mSize := m_increment s\<rparr>)"
      and k: "m_increment s1 = m_increment s" "m_numPending s1 = m_numPending s"
        "m_totalPages s1 = m_totalPages s + 1"
      by (simp_all add: counters_def)
    from h have c0: "cursor s p = 0" by (simp add: cursor_def)
    from h dom have pP: "p \<notin> set P" by auto
    from cs obtain pg where pg: "heap s1 p = Some pg"
      and u: "unlinked pg = LinearAllocatorPage\<lparr>mSize := m_increment s\<rparr>"
      by (metis contents_Some_iff fun_upd_same)
    have "mOffset (unlinked pg) = 0"
      unfolding u by (simp add: LinearAllocatorPage_def)
    then have off: "mOffset pg = 0" by simp
    have "invariant s1 U1 S1 P"
      unfolding invariant_alt using A1 h n t f z cs k pP
      by (auto simp: cursor_alt fence_alt LinearAllocatorPage_def)
    then show ?thesis
      using h k pg off c0 cs by auto
  qed
qed

lemma pending_asserts_invariant: "invariant s U S P \<Longrightarrow> pending_asserts dbg s P"
  by (auto simp: invariant_def pending_asserts_def fence_def)

lemma commit_invariant:
  assumes I: "invariant s U S P" and len: "m_totalPages s < 2 ^ 32"
    and R: "FenceCommittedPages dbg s = Some (Inr s')"
  shows "invariant s' U (rev (filter (\<lambda>a. \<not> unreferenced s a) S))
           (rev (filter (unreferenced s) S) @ P) \<and> m_increment s' = m_increment s \<and>
         (\<forall>x. cursor s' x = cursor s x) \<and>
         (\<forall>x\<in>set S. unreferenced s x \<longrightarrow> fence s' x = fence s x + 1)"
proof -
  from I have A: "arena s U S P" and n: "m_numPending s = length P"
    and t: "m_totalPages s = length U + length S + length P"
    and c: "\<forall>a\<in>set U. cursor s a = 0" and f: "\<forall>a\<in>set P. fence s a \<noteq> 0"
    and z: "\<forall>a q. contents s a = Some q \<longrightarrow> mSize q = m_increment s"
    by (simp_all add: invariant_alt)
  from A have dist: "distinct (U @ S @ P)" and dom: "dom (heap s) = set (U @ S @ P)"
    by (simp_all add: arena_def lists_def)
  have lenS: "length S < 2 ^ 32" using len t by simp
  from FenceCommittedPages_arena[OF A lenS, of dbg] R have
    A': "arena s' U (rev (filter (\<lambda>a. \<not> unreferenced s a) S))
           (rev (filter (unreferenced s) S) @ P)"
    and cs: "contents s' = (\<lambda>x. if x \<in> set S \<and> unreferenced s x
                         then map_option (\<lambda>q. q\<lparr>mPendingFence := mPendingFence q + 1\<rparr>) (contents s x)
                         else contents s x)"
    and k: "counters s' = (m_increment s, m_numPending s + length (filter (unreferenced s) S),
                    m_totalPages s)"
    by auto
  note k' = counters_eq[OF k]
  have live: "contents s x \<noteq> None" if "x \<in> set S" for x
    using that dom by (auto simp: contents_None)
  have cur: "cursor s' x = cursor s x" for x
    by (cases "contents s x") (simp_all add: cursor_alt cs)
  have fen: "fence s' x = fence s x + 1" if "x \<in> set S" "unreferenced s x" for x
    using that live[OF that(1)] by (auto simp: fence_alt cs)
  have fenP: "fence s' x = fence s x" if "x \<in> set P" for x
    using that dist by (auto simp: fence_alt cs)
  have 1: "m_totalPages s' = length U + length (rev (filter (\<lambda>a. \<not> unreferenced s a) S)) +
      length (rev (filter (unreferenced s) S) @ P)"
    using k' t sum_length_filter_compl[of "unreferenced s" S] by simp
  have 2: "\<forall>a q. contents s' a = Some q \<longrightarrow> mSize q = m_increment s'"
    using z k' by (auto simp: cs split: if_splits)
  have 3: "\<forall>a\<in>set (rev (filter (unreferenced s) S) @ P). fence s' a \<noteq> 0"
    using fen fenP f by auto
  show ?thesis
    unfolding invariant_alt using A' k' n 1 2 3 c cur fen by simp
qed

lemma retire_invariant:
  assumes I: "invariant s U S P" and R: "RetirePendingPages dbg completed s = Some (Inr s')"
  shows "invariant s' (rev (filter (fence_passed s completed) P) @ U) S
           (filter (\<lambda>a. \<not> fence_passed s completed a) P) \<and> m_increment s' = m_increment s \<and>
         (\<forall>x. cursor s' x = (if x \<in> set P \<and> fence_passed s completed x then 0 else cursor s x))"
proof -
  from I have A: "arena s U S P" and n: "m_numPending s = length P"
    and t: "m_totalPages s = length U + length S + length P"
    and c: "\<forall>a\<in>set U. cursor s a = 0" and f: "\<forall>a\<in>set P. fence s a \<noteq> 0"
    and z: "\<forall>a q. contents s a = Some q \<longrightarrow> mSize q = m_increment s"
    by (simp_all add: invariant_alt)
  from RetirePendingPages_arena[OF A pending_asserts_invariant[OF I], of dbg completed] R have
    A': "arena s' (rev (filter (fence_passed s completed) P) @ U) S
        (filter (\<lambda>a. \<not> fence_passed s completed a) P)"
    and cs: "contents s' = (\<lambda>a. if a \<in> set P \<and> fence_passed s completed a
          then map_option (\<lambda>q. q\<lparr>mOffset := 0\<rparr>) (contents s a) else contents s a)"
    and k: "counters s' =
        (m_increment s, m_numPending s - length (filter (fence_passed s completed) P),
         m_totalPages s)"
    by auto
  note k' = counters_eq[OF k]
  have cur: "cursor s' x = (if x \<in> set P \<and> fence_passed s completed x then 0 else cursor s x)"
    for x
    by (cases "contents s x") (simp_all add: cursor_alt cs)
  have fen: "fence s' x = fence s x" for x
    by (cases "contents s x") (simp_all add: fence_alt cs)
  have 0: "m_numPending s' = length (filter (\<lambda>a. \<not> fence_passed s completed a) P)"
    using k' n sum_length_filter_compl[of "fence_passed s completed" P] by simp
  have 1: "m_totalPages s' = length (rev (filter (fence_passed s completed) P) @ U) + length S +
      length (filter (\<lambda>a. \<not> fence_passed s completed a) P)"
    using k' t sum_length_filter_compl[of "fence_passed s completed" P] by simp
  have 2: "\<forall>a q. contents s' a = Some q \<longrightarrow> mSize q = m_increment s'"
    using z k' by (auto simp: cs split: if_splits)
  have 3: "\<forall>a\<in>set (rev (filter (fence_passed s completed) P) @ U). cursor s' a = 0"
    using c cur by auto
  have 4: "\<forall>a\<in>set (filter (\<lambda>a. \<not> fence_passed s completed a) P). fence s' a \<noteq> 0"
    using f fen by auto
  show ?thesis
    unfolding invariant_alt using A' k' 0 1 2 3 4 cur by simp
qed

lemma shrink_invariant:
  assumes I: "invariant s U S P" and R: "Shrink s = Some (Inr s')"
  shows "invariant s' [] S P \<and> m_increment s' = m_increment s \<and>
         (\<forall>x. cursor s' x = cursor s x)"
proof -
  from I have A: "arena s U S P" and n: "m_numPending s = length P"
    and t: "m_totalPages s = length U + length S + length P"
    and c: "\<forall>a\<in>set U. cursor s a = 0" and f: "\<forall>a\<in>set P. fence s a \<noteq> 0"
    and z: "\<forall>a q. contents s a = Some q \<longrightarrow> mSize q = m_increment s"
    by (simp_all add: invariant_alt)
  from A have dist: "distinct (U @ S @ P)"
    by (simp add: arena_def lists_def)
  from Shrink_arena[OF A R] have A': "arena s' [] S P"
    and cs: "contents s' = (\<lambda>x. if x \<in> set U then None else contents s x)"
    and k: "counters s' = (m_increment s, m_numPending s, m_totalPages s - length U)"
    by auto
  note k' = counters_eq[OF k]
  have cur: "cursor s' x = cursor s x" for x
    using c by (auto simp: cursor_alt cs)
  have fen: "fence s' x = fence s x" if "x \<in> set P" for x
    using that dist by (auto simp: fence_alt cs)
  have 2: "\<forall>a q. contents s' a = Some q \<longrightarrow> mSize q = m_increment s'"
    using z k' by (auto simp: cs split: if_splits)
  show ?thesis
    unfolding invariant_alt using A' k' n t 2 f fen cur by simp
qed

lemma allocate_invariant:
  assumes I: "invariant s U S P" and F: "fresh b s"
    and R: "Allocate dbg b sz al s = Some (Inr (off, s'))"
  shows "\<exists>U1 S1 p c. invariant s' U1 S1 P \<and> m_increment s' = m_increment s \<and>
     (\<forall>x. x \<noteq> p \<longrightarrow> cursor s' x = cursor s x) \<and>
     cursor s p = unat c \<and> AlignOffset dbg c al = Inr off \<and> cursor s' p = unat (off + sz) \<and>
     (p \<in> set S \<and> U1 = U \<and> S1 = S \<and> off + sz \<le> m_increment s \<or>
      p \<notin> set S \<and> S1 = p # S \<and> c = 0) \<and>
     (dbg \<longrightarrow> off + sz \<le> m_increment s \<and> sz \<noteq> 0 \<and> sz \<le> m_increment s \<and>
        al \<le> m_increment s)"
proof -
  from Allocate_unfold[OF R] obtain p s1 pg where
    R1: "FindPageForAlloc dbg b sz al s = Some (Inr (p, s1))" and pg: "heap s1 p = Some pg"
    and al: "AlignOffset dbg (mOffset pg) al = Inr off"
    and chk: "dbg \<longrightarrow> off + sz \<le> mSize pg"
    and s': "s' = store p (pg\<lparr>mOffset := off + sz\<rparr>) s1"
    by blast
  from I have L: "lists s U S P" by (simp add: invariant_def arena_def)
  note v = FindPageForAlloc_cases(2)[OF L R1]
  from acquire_invariant[OF I F R1] pg obtain U1 S1 where
    I1: "invariant s1 U1 S1 P" and inc: "m_increment s1 = m_increment s"
    and pS1: "p \<in> set S1" and oth: "\<forall>x. x \<noteq> p \<longrightarrow> contents s1 x = contents s x"
    and cases: "p \<in> set S \<and> U1 = U \<and> S1 = S \<and> s1 = s \<and>
        (\<exists>offset. AlignOffset dbg (mOffset pg) al = Inr offset \<and>
           offset + sz \<le> m_increment s) \<or>
      p \<notin> set S \<and> S1 = p # S \<and> mOffset pg = 0 \<and> cursor s p = 0"
    by auto
  from I1 have "distinct (U1 @ S1 @ P)" and sz1: "mSize pg = m_increment s1"
    using pg by (auto simp: invariant_def arena_def lists_def)
  with pS1 have pU1: "p \<notin> set U1" by auto
  have I': "invariant s' U1 S1 P"
    unfolding s' by (rule store_invariant[OF I1 pg]) (use pU1 in simp_all)
  have cur: "\<forall>x. x \<noteq> p \<longrightarrow> cursor s' x = cursor s x"
    using oth by (auto simp: s' cursor_store intro: cursor_contents)
  have curp: "cursor s' p = unat (off + sz)"
    by (simp add: s' cursor_store)
  have c: "cursor s p = unat (mOffset pg)"
    using cases pg by (auto simp: cursor_Some)
  have d: "p \<in> set S \<and> U1 = U \<and> S1 = S \<and> off + sz \<le> m_increment s \<or>
      p \<notin> set S \<and> S1 = p # S \<and> mOffset pg = 0"
    using cases al by auto
  have "dbg \<longrightarrow> off + sz \<le> m_increment s"
    using chk sz1 inc by simp
  with I' inc cur curp c al d v show ?thesis
    unfolding s' by (intro exI[of _ U1] exI[of _ S1] exI[of _ p] exI[of _ "mOffset pg"]) simp
qed

text \<open>Every call keeps the invariant and the size of the pages.\<close>

lemma step_invariant:
  assumes I: "invariant s U S P" and T: "step dbg careful s s'"
  shows "\<exists>U' S' P'. invariant s' U' S' P' \<and> m_increment s' = m_increment s"
  using T
proof cases
  case (acquire b sz alignment p)
  from acquire_invariant[OF I acquire(1,3)] show ?thesis by blast
next
  case (allocate b sz alignment offset)
  from allocate_invariant[OF I allocate(1,3)] show ?thesis by blast
next
  case (reference a pg n)
  have "invariant (store a (pg\<lparr>mRefCount := n\<rparr>) s) U S P"
    by (rule store_invariant[OF I reference(2)]) simp_all
  then show ?thesis using reference(1) by auto
next
  case (commit)
  from commit_invariant[OF I commit] show ?thesis by blast
next
  case (retire completed)
  from retire_invariant[OF I retire] show ?thesis by blast
next
  case shrink
  from shrink_invariant[OF I shrink] show ?thesis by blast
qed

section \<open>The constructor\<close>

lemma preallocate_invariant:
  assumes "invariant s U [] []" and "bounded s"
    and "\<forall>i j a. backends i = Creates a \<and> backends j = Creates a \<longrightarrow> i = j"
    and "\<forall>a\<in>dom (heap s). \<forall>j\<ge>i. backends j \<noteq> Creates a"
    and "preallocate backends i n s = Inr s'"
  shows "\<exists>U'. invariant s' U' [] [] \<and> bounded s' \<and> m_increment s' = m_increment s"
  using assms
proof (induction n arbitrary: i s U)
  case 0
  then show ?case by auto
next
  case (Suc n)
  note I = Suc.prems(1) and B = Suc.prems(2) and inj = Suc.prems(3) and old = Suc.prems(4)
    and R = Suc.prems(5)
  from I have A: "arena s U [] []" and t: "m_totalPages s = length U + length [] + length []"
    and n0: "m_numPending s = length []"
    and c: "\<forall>a\<in>set U. cursor s a = 0"
    and z: "\<forall>a q. contents s a = Some q \<longrightarrow> mSize q = m_increment s"
    by (simp_all add: invariant_alt)
  from A have L: "lists s U [] []" and dom: "dom (heap s) = set (U @ [] @ [])"
    by (simp_all add: arena_def)
  show ?case
  proof (cases "backends i")
    case (Creates a)
    have fr: "heap s a = None"
      using old Creates by (cases "heap s a") auto
    from GetNewPage_lists[OF L fr] obtain s1 where
      g: "GetNewPage (Creates a) s = Inr (Some a, s1)" and L1: "lists s1 (a # U) [] []"
      and cs: "contents s1 = (contents s)(a \<mapsto> LinearAllocatorPage\<lparr>mSize := m_increment s\<rparr>)"
      and k: "counters s1 = (m_increment s, m_numPending s, m_totalPages s + 1)"
      and dom1: "dom (heap s1) = insert a (dom (heap s))"
      by blast
    note k' = counters_eq[OF k]
    have aU: "a \<notin> set U" using fr dom by auto
    have I1: "invariant s1 (a # U) [] []"
      unfolding invariant_alt using L1 dom1 dom k' t n0 c z aU
      by (auto simp: arena_def cs cursor_alt LinearAllocatorPage_def)
    have B1: "bounded s1"
      using B k' by (auto simp: bounded_alt cs LinearAllocatorPage_def)
    have old1: "\<forall>x\<in>dom (heap s1). \<forall>j\<ge>Suc i. backends j \<noteq> Creates x"
    proof (intro ballI allI impI)
      fix x j
      assume x: "x \<in> dom (heap s1)" and j: "Suc i \<le> j"
      show "backends j \<noteq> Creates x"
      proof (cases "x = a")
        case True
        show ?thesis
        proof
          assume "backends j = Creates x"
          with True Creates inj have "i = j" by blast
          with j show False by simp
        qed
      next
        case False
        with x dom1 have "x \<in> dom (heap s)" by auto
        with old j show ?thesis by auto
      qed
    qed
    from R Creates g have "preallocate backends (Suc i) n s1 = Inr s'"
      by (simp add: bind_err_def)
    from Suc.IH[OF I1 B1 inj old1 this] k' show ?thesis by auto
  qed (use R in \<open>simp_all add: GetNewPage_def bind_err_def\<close>)
qed

lemma LinearAllocator_invariant:
  assumes inj: "\<forall>i j a. backends i = Creates a \<and> backends j = Creates a \<longrightarrow> i = j"
    and R: "LinearAllocator backends pageSize preallocateBytes = Inr s"
  shows "\<exists>U. invariant s U [] [] \<and> bounded s \<and> m_increment s = pageSize"
proof -
  let ?s0 = "\<lparr>heap = Map.empty, m_pendingPages = None, m_usedPages = None,
      m_unusedPages = None, m_increment = pageSize, m_numPending = 0, m_totalPages = 0\<rparr>"
  have I0: "invariant ?s0 [] [] []"
    by (simp add: invariant_def arena_def lists_def)
  have B0: "bounded ?s0" by (simp add: bounded_def)
  have old: "\<forall>a\<in>dom (heap ?s0). \<forall>j\<ge>0. backends j \<noteq> Creates a" by simp
  from R obtain n where "preallocate backends 0 n ?s0 = Inr s"
    by (auto simp: LinearAllocator_def Let_def split: if_splits)
  from preallocate_invariant[OF I0 B0 inj old this] show ?thesis by simp
qed

section \<open>Reachable states\<close>

lemma card_Diff_swap:
  assumes "finite A" and "finite B"
  shows "card B + card (A - B) = card A + card (B - A)"
proof -
  have "card (A \<union> B) = card A + card (B - A)"
    using card_Un_disjoint[of A "B - A"] assms by (simp add: Un_Diff_cancel)
  moreover have "card (A \<union> B) = card B + card (A - B)"
    using card_Un_disjoint[of B "A - B"] assms by (simp add: Un_Diff_cancel Un_commute)
  ultimately show ?thesis by simp
qed

lemma invariant_card:
  assumes "invariant s U S P"
  shows "finite (dom (heap s))" and "card (dom (heap s)) = length U + length S + length P"
proof -
  from assms have d: "distinct (U @ S @ P)" and dom: "dom (heap s) = set (U @ S @ P)"
    by (simp_all add: invariant_def arena_def lists_def)
  show "finite (dom (heap s))" unfolding dom by simp
  show "card (dom (heap s)) = length U + length S + length P"
    unfolding dom using distinct_card[OF d] by simp
qed

lemma reachable_invariant:
  assumes "reachable dbg careful c d s"
  shows "\<exists>U S P. invariant s U S P \<and> d \<le> c \<and> card (dom (heap s)) = c - d"
  using assms
proof induction
  case (construct backends pageSize preallocateBytes s)
  from LinearAllocator_invariant[OF construct] show ?case by auto
next
  case (call c d s s')
  then obtain U S P where I: "invariant s U S P" and dc: "d \<le> c"
    and card: "card (dom (heap s)) = c - d"
    by blast
  from step_invariant[OF I call.hyps(2)] obtain U' S' P' where I': "invariant s' U' S' P'"
    by blast
  have e: "card (dom (heap s')) + destroyed s s' = card (dom (heap s)) + created s s'"
    unfolding created_def destroyed_def
    by (rule card_Diff_swap[OF invariant_card(1)[OF I] invariant_card(1)[OF I']])
  have "destroyed s s' \<le> card (dom (heap s))"
    unfolding destroyed_def by (rule card_mono[OF invariant_card(1)[OF I]]) auto
  with e card dc have "d + destroyed s s' \<le> c + created s s'"
    and "card (dom (heap s')) = c + created s s' - (d + destroyed s s')"
    by simp_all
  with I' show ?case by blast
qed

section \<open>The example: one page through its life\<close>

lemmas example_defs =
  bind_res_def bind_err_def store_def LinearAllocatorPage_def UnlinkPage_def LinkPage_def
  assert_page_def assert_head_def get_head_def set_head_def set_pNextPage_def set_pPrevPage_def
  example_one_def example_page_def example_empty_def

lemma example_construct: "LinearAllocator (\<lambda>i. Creates (10 + i)) 65536 0 = Inr example_empty"
  by (simp add: LinearAllocator_def example_empty_def)

lemma example_acquire:
  "FindPageForAlloc dbg (Creates 10) 4096 256 example_empty
     = Some (Inr (10, example_one UsedPages 0 0))"
  apply (simp add: FindPageForAlloc_def GetPageForAlloc_def example_empty_def)
  apply (subst FindPageForAlloc_list.simps)
  apply (simp add: GetCleanPageForAlloc_def GetNewPage_def example_defs)
  done

lemma example_allocate:
  "Allocate dbg (Creates 10) 4096 256 example_empty
     = Some (Inr (0, example_one UsedPages 0 4096))"
  unfolding Allocate_def example_acquire
  by (simp add: Suballocate_def AlignOffset_def example_defs)

lemma example_allocate_again:
  "Allocate dbg (Creates 11) 4096 256 (example_one UsedPages 0 4096)
     = Some (Inr (4096, example_one UsedPages 0 8192))"
  apply (simp add: Allocate_def FindPageForAlloc_def GetPageForAlloc_def example_one_def
      set_head_def)
  apply (subst FindPageForAlloc_list.simps)
  apply (simp add: Suballocate_def AlignOffset_def example_defs)
  done

lemma example_commit:
  "FenceCommittedPages dbg (example_one UsedPages 0 8192)
     = Some (Inr (example_one PendingPages 1 8192))"
  apply (simp add: FenceCommittedPages_def example_one_def set_head_def)
  apply (subst FenceCommittedPages_loop.simps)
  apply (simp add: example_defs)
  apply (subst FenceCommittedPages_loop.simps)
  apply (simp add: LinkPageChain_def Let_def example_defs)
  apply (subst LinkPageChain_last.simps)
  apply (simp add: example_defs)
  done

lemma example_retire_early:
  "RetirePendingPages dbg (\<lambda>a. 0) (example_one PendingPages 1 8192)
     = Some (Inr (example_one PendingPages 1 8192))"
  apply (simp add: RetirePendingPages_def example_one_def set_head_def)
  apply (subst RetirePendingPages_loop.simps)
  apply (simp add: example_defs)
  apply (subst RetirePendingPages_loop.simps)
  apply simp
  done

lemma example_retire:
  "RetirePendingPages dbg (\<lambda>a. 1) (example_one PendingPages 1 8192)
     = Some (Inr (example_one UnusedPages 1 0))"
  apply (simp add: RetirePendingPages_def example_one_def set_head_def)
  apply (subst RetirePendingPages_loop.simps)
  apply (simp add: ReleasePage_def example_defs)
  apply (intro conjI impI)
   apply (subst RetirePendingPages_loop.simps, simp)+
  done

lemma example_shrink: "Shrink (example_one UnusedPages 1 0) = Some (Inr example_empty)"
  apply (simp add: Shrink_def example_one_def set_head_def)
  apply (subst FreePages.simps)
  apply (simp add: example_defs)
  apply (subst FreePages.simps)
  apply (simp add: example_defs)
  done

text \<open>In a release build a request of \<open>2 ^ 64 - 4096\<close> bytes moves the cursor back to 0.\<close>

lemma example_wrap:
  "Allocate False (Creates 11) (- 4096) 0 (example_one UsedPages 0 4096)
     = Some (Inr (4096, example_one UsedPages 0 0))"
  apply (simp add: Allocate_def FindPageForAlloc_def GetPageForAlloc_def example_one_def
      set_head_def)
  apply (subst FindPageForAlloc_list.simps)
  apply (simp add: Suballocate_def AlignOffset_def example_defs)
  done

lemma arena_example_one:
  "arena (example_one UnusedPages v offset) [10] [] []"
  "arena (example_one UsedPages v offset) [] [10] []"
  "arena (example_one PendingPages v offset) [] [] [10]"
  by (simp_all add: arena_def lists_def example_one_def set_head_def example_page_def)

lemma example_one_fields [simp]:
  "dom (heap (example_one l v offset)) = {10}" "cursor (example_one l v offset) 10 = unat offset"
  "fence (example_one l v offset) 10 = v" "m_increment (example_one l v offset) = 65536"
  "heap (example_one l v offset) 11 = None"
  by (cases l; simp add: example_one_def set_head_def example_page_def cursor_def fence_def)+

lemma example_empty_fields [simp]:
  "dom (heap example_empty) = {}" "heap example_empty a = None"
  "m_increment example_empty = 65536"
  by (simp_all add: example_empty_def)

lemma valid_request_example: "valid_request example_empty 4096 256"
  "valid_request (example_one l v offset) 4096 256"
  by (simp_all add: valid_request_def)

lemma step_example:
  "step dbg careful example_empty (example_one UsedPages 0 4096)"
  "step dbg careful (example_one UsedPages 0 4096) (example_one UsedPages 0 8192)"
  "step dbg careful (example_one UsedPages 0 8192) (example_one PendingPages 1 8192)"
  "step dbg careful (example_one PendingPages 1 8192) (example_one UnusedPages 1 0)"
  "step dbg careful (example_one UnusedPages 1 0) example_empty"
proof -
  show "step dbg careful example_empty (example_one UsedPages 0 4096)"
    by (rule step.allocate[OF _ _ example_allocate])
      (simp_all add: fresh_def valid_request_example)
  show "step dbg careful (example_one UsedPages 0 4096) (example_one UsedPages 0 8192)"
    by (rule step.allocate[OF _ _ example_allocate_again])
      (simp_all add: fresh_def valid_request_example)
  show "step dbg careful (example_one UsedPages 0 8192) (example_one PendingPages 1 8192)"
    by (rule step.commit[OF _ example_commit]) (simp add: example_one_def set_head_def)
  show "step dbg careful (example_one PendingPages 1 8192) (example_one UnusedPages 1 0)"
    by (rule step.retire[OF example_retire])
  show "step dbg careful (example_one UnusedPages 1 0) example_empty"
    by (rule step.shrink[OF example_shrink])
qed

lemma reachable_example:
  "reachable dbg careful 0 0 example_empty"
  "reachable dbg careful 1 0 (example_one UsedPages 0 4096)"
  "reachable dbg careful 1 0 (example_one UsedPages 0 8192)"
  "reachable dbg careful 1 0 (example_one PendingPages 1 8192)"
  "reachable dbg careful 1 0 (example_one UnusedPages 1 0)"
  "reachable dbg careful 1 1 example_empty"
proof -
  have "\<forall>i j a. Creates (10 + i) = Creates a \<and> Creates (10 + j) = Creates a \<longrightarrow> i = j"
    by auto
  from reachable.construct[OF this example_construct, of dbg careful]
  show 0: "reachable dbg careful 0 0 example_empty" by simp
  from reachable.call[OF 0 step_example(1)]
  show 1: "reachable dbg careful 1 0 (example_one UsedPages 0 4096)"
    by (simp add: created_def destroyed_def)
  from reachable.call[OF 1 step_example(2)]
  show 2: "reachable dbg careful 1 0 (example_one UsedPages 0 8192)"
    by (simp add: created_def destroyed_def)
  from reachable.call[OF 2 step_example(3)]
  show 3: "reachable dbg careful 1 0 (example_one PendingPages 1 8192)"
    by (simp add: created_def destroyed_def)
  from reachable.call[OF 3 step_example(4)]
  show 4: "reachable dbg careful 1 0 (example_one UnusedPages 1 0)"
    by (simp add: created_def destroyed_def)
  from reachable.call[OF 4 step_example(5)]
  show "reachable dbg careful 1 1 example_empty"
    by (simp add: created_def destroyed_def)
qed

section \<open>The count of pages\<close>

text \<open>
  Claim C8. In every state that the allocator reaches from its construction, by calls
  that return (\<open>FenceCommittedPages\<close> being called while fewer than \<open>2 ^ 32\<close> pages
  exist), in either build and whatever the requests, with \<open>c\<close> pages created and \<open>d\<close>
  pages destroyed so far: the pages are in three lists \<open>U\<close> (unused), \<open>S\<close> (used) and
  \<open>P\<close> (pending), no page in two of them and every live page in one; the lengths of the
  three lists add up to \<open>c - d\<close>, and \<^verbatim>\<open>m_totalPages\<close> is this number.
\<close>

theorem page_count:
  assumes "reachable dbg careful c d s"
  shows "\<exists>U S P. arena s U S P \<and> d \<le> c \<and> length U + length S + length P = c - d \<and>
           m_totalPages s = c - d"
proof -
  from reachable_invariant[OF assms] obtain U S P where I: "invariant s U S P"
    and dc: "d \<le> c" and card: "card (dom (heap s)) = c - d"
    by blast
  from invariant_card(2)[OF I] card have "length U + length S + length P = c - d"
    by simp
  moreover from I have "arena s U S P" "m_totalPages s = length U + length S + length P"
    by (simp_all add: invariant_def)
  ultimately show ?thesis using dc by auto
qed

text \<open>
  In the example, while page 10 is pending one page has been created and none
  destroyed; after \<open>Shrink\<close> the page is destroyed and the lists are empty.
\<close>

theorem page_count_witness:
  "reachable True True 1 0 (example_one PendingPages 1 8192) \<and>
   arena (example_one PendingPages 1 8192) [] [] [10] \<and>
   m_totalPages (example_one PendingPages 1 8192) = 1 \<and>
   reachable True True 1 1 example_empty \<and> arena example_empty [] [] [] \<and>
   m_totalPages example_empty = 0"
proof -
  from page_count[OF reachable_example(4)[of True True]]
  have 1: "m_totalPages (example_one PendingPages 1 8192) = 1" by auto
  from page_count[OF reachable_example(6)[of True True]]
  have 2: "m_totalPages example_empty = 0" by auto
  show ?thesis
    using 1 2 reachable_example(4,6) arena_example_one(3) arena_example_empty by simp
qed

section \<open>The signal value of a pending page\<close>

lemma fence_new_page:
  "fence s' a = 0" if "contents s' = (contents s)(a \<mapsto> LinearAllocatorPage\<lparr>mSize := i\<rparr>)"
  using that by (simp add: fence_alt LinearAllocatorPage_def)

text \<open>
  Claim C10. In every state \<open>s\<close> that the allocator reaches from its construction by
  calls that return, in either build and whatever the requests, with the lists \<open>U\<close>,
  \<open>S\<close> and \<open>P\<close>:
  \<^item> every page of the pending list \<open>P\<close> has a signal value other than 0;
  \<^item> \<open>RetirePendingPages\<close> returns, whatever the fences report: in a debug build its
    assertion \<^verbatim>\<open>page->mPendingFence != 0\<close> holds for every page it visits;
  \<^item> a page that \<open>GetNewPage\<close> creates has the signal value 0;
  \<^item> \<open>FenceCommittedPages\<close> (with fewer than \<open>2 ^ 32\<close> pages) moves the used pages
    without references to the pending list and adds 1 to the signal value of each.

  The signal value is a number without an upper bound (the type of \<^verbatim>\<open>mPendingFence\<close> is
  declared in the header, which is missing).
\<close>

theorem pending_fence_nonzero:
  assumes "reachable dbg careful c d s"
  shows "\<exists>U S P. arena s U S P \<and> (\<forall>a\<in>set P. fence s a \<noteq> 0) \<and>
     (\<forall>completed. \<exists>s'. RetirePendingPages dbg completed s = Some (Inr s')) \<and>
     (\<forall>a. heap s a = None \<longrightarrow>
        (\<exists>s'. GetNewPage (Creates a) s = Inr (Some a, s') \<and> fence s' a = 0)) \<and>
     (m_totalPages s < 2 ^ 32 \<longrightarrow>
        (\<exists>s' S'. FenceCommittedPages dbg s = Some (Inr s') \<and>
           arena s' U S' (rev (filter (unreferenced s) S) @ P) \<and>
           (\<forall>a\<in>set (filter (unreferenced s) S). fence s' a = fence s a + 1)))"
proof -
  from reachable_invariant[OF assms] obtain U S P where I: "invariant s U S P"
    by blast
  then have A: "arena s U S P" and f: "\<forall>a\<in>set P. fence s a \<noteq> 0"
    and t: "m_totalPages s = length U + length S + length P"
    by (simp_all add: invariant_def)
  have r: "\<exists>s'. RetirePendingPages dbg completed s = Some (Inr s')" for completed
    using RetirePendingPages_arena[OF A pending_asserts_invariant[OF I], of dbg completed]
    by blast
  have n: "\<exists>s'. GetNewPage (Creates a) s = Inr (Some a, s') \<and> fence s' a = 0"
    if "heap s a = None" for a
  proof -
    from A have "lists s U S P" by (simp add: arena_def)
    from GetNewPage_lists[OF this that] obtain s' where
      "GetNewPage (Creates a) s = Inr (Some a, s')"
      "contents s' = (contents s)(a \<mapsto> LinearAllocatorPage\<lparr>mSize := m_increment s\<rparr>)"
      by blast
    with fence_new_page[OF this(2)] show ?thesis by blast
  qed
  have c: "\<exists>s' S'. FenceCommittedPages dbg s = Some (Inr s') \<and>
           arena s' U S' (rev (filter (unreferenced s) S) @ P) \<and>
           (\<forall>a\<in>set (filter (unreferenced s) S). fence s' a = fence s a + 1)"
    if len: "m_totalPages s < 2 ^ 32"
  proof -
    have "length S < 2 ^ 32" using len t by simp
    from FenceCommittedPages_arena[OF A this, of dbg] obtain s' where
      s': "FenceCommittedPages dbg s = Some (Inr s')" by blast
    from commit_invariant[OF I len s'] show ?thesis
      using s' by (auto simp: invariant_def)
  qed
  show ?thesis
    using A f r n c by blast
qed

text \<open>
  In the example the two allocations are committed: page 10 is pending with the signal
  value 1, and a debug build's \<open>RetirePendingPages\<close> returns.
\<close>

theorem pending_fence_nonzero_witness:
  "reachable True True 1 0 (example_one PendingPages 1 8192) \<and>
   arena (example_one PendingPages 1 8192) [] [] [10] \<and>
   fence (example_one PendingPages 1 8192) 10 \<noteq> 0 \<and>
   (\<exists>s'. RetirePendingPages True (\<lambda>a. 0) (example_one PendingPages 1 8192) = Some (Inr s'))"
proof -
  from pending_fence_nonzero[OF reachable_example(4)[of True True]] obtain U S P where
    A: "arena (example_one PendingPages 1 8192) U S P"
    and f: "\<forall>a\<in>set P. fence (example_one PendingPages 1 8192) a \<noteq> 0"
    and r: "\<forall>completed. \<exists>s'. RetirePendingPages True completed
        (example_one PendingPages 1 8192) = Some (Inr s')"
    by blast
  from arena_unique(3)[OF arena_example_one(3) A] have "P = [10]" .
  with f have "fence (example_one PendingPages 1 8192) 10 \<noteq> 0" by simp
  then show ?thesis
    using r reachable_example(4) arena_example_one(3) by blast
qed

section \<open>The cursor of a page\<close>

lemma bounded_cursor: "bounded s = (\<forall>a. cursor s a \<le> unat (m_increment s))"
  unfolding bounded_def
proof (intro iffI allI impI)
  fix a
  assume h: "\<forall>a pg. heap s a = Some pg \<longrightarrow> mOffset pg \<le> m_increment s"
  show "cursor s a \<le> unat (m_increment s)"
  proof (cases "heap s a")
    case None
    then show ?thesis by (simp add: cursor_def)
  next
    case (Some pg)
    with h have "mOffset pg \<le> m_increment s" by blast
    with Some show ?thesis by (simp add: cursor_def word_le_nat_alt)
  qed
next
  fix a pg
  assume "\<forall>a. cursor s a \<le> unat (m_increment s)" and pg: "heap s a = Some pg"
  then have "cursor s a \<le> unat (m_increment s)" by blast
  with pg show "mOffset pg \<le> m_increment s" by (simp add: cursor_def word_le_nat_alt)
qed

text \<open>A request that a debug build serves is valid.\<close>

lemma valid_request_debug:
  assumes "AlignOffset True c al = Inr off" and "sz \<noteq> 0" and "sz \<le> m_increment s"
    and "al \<le> m_increment s"
  shows "valid_request s sz al"
  using assms
  by (cases "al = 0") (auto simp: valid_request_def AlignOffset_def word_gt_0 split: if_splits)

lemma cursor_advance:
  assumes V: "valid_request s sz al" and K: "unat (m_increment s) \<le> 2 ^ 62"
    and c: "c \<le> m_increment s" and A: "AlignOffset dbg c al = Inr off"
  shows "unat c \<le> unat (off + sz)"
proof -
  from V have "al AND (al - 1) = 0" by (simp add: valid_request_def)
  then have al: "al = 0 \<or> (\<exists>k<64. al = 2 ^ k)" by (rule and_pred_word)
  from V c have b: "unat sz \<le> unat (m_increment s)" "unat al \<le> unat (m_increment s)"
    "unat c \<le> unat (m_increment s)"
    by (simp_all add: valid_request_def word_le_nat_alt)
  have nov: "unat c + unat al \<le> 2 ^ 64" using b K by simp
  from AlignOffset_spec[OF al nov, of dbg] A
  have u: "unat off = spec_align_up (unat c) (unat al)" by auto
  have ge: "unat c \<le> unat off" and lt: "unat off \<le> unat c + unat al"
    using spec_align_up_least(2,3)[of "unat al" "unat c"] u
    by (cases "unat al = 0"; simp add: spec_align_up_def)+
  have "unat off + unat sz < 2 ^ LENGTH(64)" using lt b K by simp
  then have "unat (off + sz) = unat off + unat sz" by (simp add: unat_add_lem[THEN iffD1])
  with ge show ?thesis by simp
qed

lemma AlignOffset_zero: "AlignOffset False 0 al = Inr off \<Longrightarrow> off = 0"
  by (auto simp: AlignOffset_def split: if_splits)

text \<open>
  What a call does to the cursors, in a debug build or for a caller that makes valid
  requests only, and for pages of at most \<open>2 ^ 62\<close> bytes.
\<close>

lemma step_cursor:
  assumes I: "invariant s U S P" and B: "bounded s" and V: "dbg \<or> careful"
    and K: "unat (m_increment s) \<le> 2 ^ 62" and T: "step dbg careful s s'"
    and A': "arena s' U' S' P'"
  shows "bounded s'" and "\<forall>a\<in>set S \<inter> set S'. cursor s a \<le> cursor s' a"
    and "\<forall>a. cursor s' a < cursor s a \<longrightarrow> a \<in> set P \<and> a \<in> set U' \<and> cursor s' a = 0"
proof -
  from I have dist: "distinct (U @ S @ P)" by (simp add: invariant_def arena_def lists_def)
  note Bc = B[unfolded bounded_cursor]
  have "bounded s' \<and> (\<forall>a\<in>set S \<inter> set S'. cursor s a \<le> cursor s' a) \<and>
    (\<forall>a. cursor s' a < cursor s a \<longrightarrow> a \<in> set P \<and> a \<in> set U' \<and> cursor s' a = 0)"
    using T
  proof cases
    case (acquire b sz al p)
    from acquire_invariant[OF I acquire(1,3)] obtain U1 S1 pg where
      inc: "m_increment s' = m_increment s" and pg: "heap s' p = Some pg"
      and oth: "\<forall>x. x \<noteq> p \<longrightarrow> contents s' x = contents s x"
      and cases: "p \<in> set S \<and> U1 = U \<and> S1 = S \<and> s' = s \<and>
        (\<exists>offset. AlignOffset dbg (mOffset pg) al = Inr offset \<and>
           offset + sz \<le> m_increment s) \<or>
        p \<notin> set S \<and> S1 = p # S \<and> mOffset pg = 0 \<and> cursor s p = 0"
      by blast
    have "cursor s' p = cursor s p"
      using cases pg by (auto simp: cursor_Some)
    then have cur: "cursor s' x = cursor s x" for x
      using oth by (cases "x = p") (auto intro: cursor_contents)
    show ?thesis
      using Bc inc by (simp add: bounded_cursor cur)
  next
    case (allocate b sz al off)
    from allocate_invariant[OF I allocate(1,3)] obtain U1 S1 p c where
      inc: "m_increment s' = m_increment s"
      and oth: "\<forall>x. x \<noteq> p \<longrightarrow> cursor s' x = cursor s x"
      and c: "cursor s p = unat c" and al: "AlignOffset dbg c al = Inr off"
      and c': "cursor s' p = unat (off + sz)"
      and cases: "p \<in> set S \<and> U1 = U \<and> S1 = S \<and> off + sz \<le> m_increment s \<or>
        p \<notin> set S \<and> S1 = p # S \<and> c = 0"
      and d: "dbg \<longrightarrow> off + sz \<le> m_increment s \<and> sz \<noteq> 0 \<and> sz \<le> m_increment s \<and>
        al \<le> m_increment s"
      by blast
    have v: "valid_request s sz al"
    proof (cases careful)
      case True
      with allocate(2) show ?thesis by simp
    next
      case False
      with V have dbg by simp
      with valid_request_debug[of c al off sz s] al d show ?thesis by simp
    qed
    have "unat c \<le> unat (m_increment s)" using Bc c[symmetric] by simp
    then have cle: "c \<le> m_increment s" by (simp add: word_le_nat_alt)
    from cursor_advance[OF v K cle al] have adv: "cursor s p \<le> cursor s' p"
      by (simp add: c c')
    have bnd: "off + sz \<le> m_increment s"
    proof (cases dbg)
      case True
      with d show ?thesis by simp
    next
      case False
      from cases show ?thesis
      proof
        assume "p \<in> set S \<and> U1 = U \<and> S1 = S \<and> off + sz \<le> m_increment s"
        then show ?thesis by simp
      next
        assume "p \<notin> set S \<and> S1 = p # S \<and> c = 0"
        with al False have "off = 0" by (simp add: AlignOffset_zero)
        with v show ?thesis by (simp add: valid_request_def)
      qed
    qed
    have ge: "cursor s x \<le> cursor s' x" for x
      using oth adv by (cases "x = p") auto
    have "cursor s' x \<le> unat (m_increment s')" for x
      using oth Bc bnd inc c' by (cases "x = p") (auto simp: word_le_nat_alt)
    then have "bounded s'" by (simp add: bounded_cursor)
    then show ?thesis
      using ge by (auto simp: not_less[symmetric])
  next
    case (reference a pg n)
    have cur: "cursor s' x = cursor s x" for x
      using reference by (simp add: cursor_store cursor_Some)
    have inc: "m_increment s' = m_increment s"
      using reference(1) by simp
    show ?thesis
      using Bc inc by (simp add: bounded_cursor cur)
  next
    case commit
    from commit_invariant[OF I commit] have inc: "m_increment s' = m_increment s"
      and cur: "\<forall>x. cursor s' x = cursor s x"
      by simp_all
    show ?thesis
      using Bc inc by (simp add: bounded_cursor cur)
  next
    case (retire completed)
    from retire_invariant[OF I retire] have
      I': "invariant s' (rev (filter (fence_passed s completed) P) @ U) S
           (filter (\<lambda>a. \<not> fence_passed s completed a) P)"
      and inc: "m_increment s' = m_increment s"
      and cur: "\<forall>x. cursor s' x =
          (if x \<in> set P \<and> fence_passed s completed x then 0 else cursor s x)"
      by simp_all
    from I' have "arena s' (rev (filter (fence_passed s completed) P) @ U) S
           (filter (\<lambda>a. \<not> fence_passed s completed a) P)"
      by (simp add: invariant_def)
    from arena_unique(1,2)[OF this A'] have U': "U' = rev (filter (fence_passed s completed) P) @ U"
      and S': "S' = S" by simp_all
    have 1: "bounded s'"
      using Bc inc by (simp add: bounded_cursor cur)
    have 2: "\<forall>a\<in>set S \<inter> set S'. cursor s a \<le> cursor s' a"
      using dist by (auto simp: cur)
    have 3: "\<forall>a. cursor s' a < cursor s a \<longrightarrow> a \<in> set P \<and> a \<in> set U' \<and> cursor s' a = 0"
      by (auto simp: cur U' split: if_splits)
    show ?thesis using 1 2 3 by blast
  next
    case shrink
    from shrink_invariant[OF I shrink] have inc: "m_increment s' = m_increment s"
      and cur: "\<forall>x. cursor s' x = cursor s x"
      by simp_all
    show ?thesis
      using Bc inc by (simp add: bounded_cursor cur)
  qed
  then show "bounded s'" and "\<forall>a\<in>set S \<inter> set S'. cursor s a \<le> cursor s' a"
    and "\<forall>a. cursor s' a < cursor s a \<longrightarrow> a \<in> set P \<and> a \<in> set U' \<and> cursor s' a = 0"
    by blast+
qed

lemma reachable_bounded:
  assumes "reachable dbg careful c d s" and V: "dbg \<or> careful"
  shows "unat (m_increment s) \<le> 2 ^ 62 \<longrightarrow> bounded s"
  using assms(1)
proof induction
  case (construct backends pageSize preallocateBytes s)
  from LinearAllocator_invariant[OF construct] show ?case by auto
next
  case (call c d s s')
  from reachable_invariant[OF call.hyps(1)] obtain U S P where I: "invariant s U S P"
    by blast
  from step_invariant[OF I call.hyps(2)] obtain U' S' P' where I': "invariant s' U' S' P'"
    and inc: "m_increment s' = m_increment s"
    by blast
  show ?case
  proof
    assume "unat (m_increment s') \<le> 2 ^ 62"
    then have K: "unat (m_increment s) \<le> 2 ^ 62" by (simp add: inc)
    with call.IH have B: "bounded s" by simp
    from I' have "arena s' U' S' P'" by (simp add: invariant_def)
    from step_cursor(1)[OF I B V K call.hyps(2) this] show "bounded s'" .
  qed
qed

text \<open>
  Claim C7, as amended. In a debug build, or when the caller makes valid requests only
  (a size that is not 0 and not above the page size, an alignment that is 0 or a power of
  two and not above the page size), and for pages of at most \<open>2 ^ 62\<close> bytes: in every
  state \<open>s\<close> that the allocator reaches from its construction by calls that return, with
  the lists \<open>U\<close>, \<open>S\<close> and \<open>P\<close>,
  \<^item> when \<open>FindPageForAlloc\<close> returns a page \<open>p\<close> that was not in the used list, \<open>p\<close> is
    then at the head of the used list and its cursor is 0;
  \<^item> over every call, the cursor of a page that is in the used list before and after
    the call does not decrease;
  \<^item> over every call, a cursor that decreases is the cursor of a page that the call
    moves from the pending list to the unused list, and it is then 0; and every page of
    the unused list has its cursor at 0.
\<close>

theorem cursor_lifecycle:
  assumes R: "reachable dbg careful c d s" and V: "dbg \<or> careful"
    and K: "unat (m_increment s) \<le> 2 ^ 62" and A: "arena s U S P"
  shows "(\<forall>b sz al p s1.
            fresh b s \<and> FindPageForAlloc dbg b sz al s = Some (Inr (p, s1)) \<and> p \<notin> set S \<longrightarrow>
            (\<exists>U1. arena s1 U1 (p # S) P) \<and> cursor s1 p = 0) \<and>
         (\<forall>s' U' S' P'.
            step dbg careful s s' \<and> arena s' U' S' P' \<longrightarrow>
            (\<forall>a\<in>set S \<inter> set S'. cursor s a \<le> cursor s' a) \<and>
            (\<forall>a. cursor s' a < cursor s a \<longrightarrow> a \<in> set P \<and> a \<in> set U' \<and> cursor s' a = 0) \<and>
            (\<forall>a\<in>set U'. cursor s' a = 0))"
proof -
  from reachable_invariant[OF R] obtain U0 S0 P0 where I0: "invariant s U0 S0 P0"
    by blast
  then have "arena s U0 S0 P0" by (simp add: invariant_def)
  from arena_unique[OF this A] I0 have I: "invariant s U S P" by simp
  from reachable_bounded[OF R V] K have B: "bounded s" by simp
  have 1: "(\<exists>U1. arena s1 U1 (p # S) P) \<and> cursor s1 p = 0"
    if h: "fresh b s \<and> FindPageForAlloc dbg b sz al s = Some (Inr (p, s1)) \<and> p \<notin> set S"
    for b sz al p s1
  proof -
    from acquire_invariant[OF I] h obtain U1 S1 pg where
      I1: "invariant s1 U1 S1 P" and pg: "heap s1 p = Some pg"
      and "S1 = p # S \<and> mOffset pg = 0"
      by blast
    then show ?thesis
      by (auto simp: invariant_def cursor_Some)
  qed
  have 2: "(\<forall>a\<in>set S \<inter> set S'. cursor s a \<le> cursor s' a) \<and>
            (\<forall>a. cursor s' a < cursor s a \<longrightarrow> a \<in> set P \<and> a \<in> set U' \<and> cursor s' a = 0) \<and>
            (\<forall>a\<in>set U'. cursor s' a = 0)"
    if h: "step dbg careful s s' \<and> arena s' U' S' P'" for s' U' S' P'
  proof -
    from h have T: "step dbg careful s s'" and A': "arena s' U' S' P'" by simp_all
    from step_invariant[OF I T] obtain U1 S1 P1 where I1: "invariant s' U1 S1 P1" by blast
    then have "arena s' U1 S1 P1" by (simp add: invariant_def)
    from arena_unique(1)[OF this A'] I1 have "\<forall>a\<in>set U'. cursor s' a = 0"
      by (simp add: invariant_def)
    with step_cursor(2)[OF I B V K T A'] step_cursor(3)[OF I B V K T A'] show ?thesis
      by blast
  qed
  show ?thesis
    using 1 2 by blast
qed

text \<open>
  In the example (a debug build): the first request takes the new page 10 into the used
  list with the cursor 0; the second allocation moves the cursor of page 10 from 4096 to
  8192; \<open>RetirePendingPages\<close> moves the page from the pending to the unused list and
  its cursor from 8192 to 0.
\<close>

theorem cursor_lifecycle_witness:
  "reachable True False 0 0 example_empty \<and> arena example_empty [] [] [] \<and>
   FindPageForAlloc True (Creates 10) 4096 256 example_empty
     = Some (Inr (10, example_one UsedPages 0 0)) \<and>
   cursor (example_one UsedPages 0 0) 10 = 0 \<and>
   reachable True False 1 0 (example_one UsedPages 0 4096) \<and>
   step True False (example_one UsedPages 0 4096) (example_one UsedPages 0 8192) \<and>
   cursor (example_one UsedPages 0 4096) 10 \<le> cursor (example_one UsedPages 0 8192) 10 \<and>
   reachable True False 1 0 (example_one PendingPages 1 8192) \<and>
   step True False (example_one PendingPages 1 8192) (example_one UnusedPages 1 0) \<and>
   cursor (example_one UnusedPages 1 0) 10 < cursor (example_one PendingPages 1 8192) 10"
proof -
  have K: "unat (m_increment example_empty) \<le> 2 ^ 62"
    "unat (m_increment (example_one l v offset)) \<le> 2 ^ 62" for l v offset
    by simp_all
  have f: "fresh (Creates 10) example_empty" by (simp add: fresh_def)
  from cursor_lifecycle[OF reachable_example(1)[of True False] _ K(1) arena_example_empty,
      THEN conjunct1] f example_acquire[of True]
  have 1: "cursor (example_one UsedPages 0 0) 10 = 0" by auto
  from cursor_lifecycle[OF reachable_example(2)[of True False] _ K(2) arena_example_one(2),
      THEN conjunct2] step_example(2)[of True False] arena_example_one(2)[of 0 8192]
  have 2: "cursor (example_one UsedPages 0 4096) 10 \<le> cursor (example_one UsedPages 0 8192) 10"
    by fastforce
  have 3: "cursor (example_one UnusedPages 1 0) 10 < cursor (example_one PendingPages 1 8192) 10"
    by simp
  show ?thesis
    using 1 2 3 reachable_example[of True False] step_example[of True False]
      arena_example_empty example_acquire[of True]
    by simp
qed

text \<open>
  Claim C7 as stated fails in a release build, which does not check the request: after
  an allocation of 4096 bytes, a request of \<open>2 ^ 64 - 4096\<close> bytes is served from the
  same page and moves its cursor from 4096 back to 0, while the page stays in the used
  list.
\<close>

theorem cursor_lifecycle_counterexample:
  "reachable False False 1 0 (example_one UsedPages 0 4096) \<and>
   Allocate False (Creates 11) (- 4096) 0 (example_one UsedPages 0 4096)
     = Some (Inr (4096, example_one UsedPages 0 0)) \<and>
   step False False (example_one UsedPages 0 4096) (example_one UsedPages 0 0) \<and>
   arena (example_one UsedPages 0 4096) [] [10] [] \<and>
   arena (example_one UsedPages 0 0) [] [10] [] \<and>
   cursor (example_one UsedPages 0 4096) 10 = 4096 \<and>
   cursor (example_one UsedPages 0 0) 10 = 0"
proof -
  have "step False False (example_one UsedPages 0 4096) (example_one UsedPages 0 0)"
    by (rule step.allocate[OF _ _ example_wrap]) (simp_all add: fresh_def)
  then show ?thesis
    using reachable_example(2)[of False False] example_wrap arena_example_one(2) by simp
qed

section \<open>Requests that a release build does not check\<close>




text \<open>
  Claim C4 as stated fails in a release build, which does not check the request: with
  page 10 in the used list and its cursor at 4096, a request of \<open>2 ^ 64 - 4096\<close> bytes
  passes the test of the scan, computed in \<^verbatim>\<open>size_t\<close>, and page 10 is chosen; the
  algorithm of the claim finds that the request does not fit and takes a clean page,
  the new page 11.
\<close>

theorem GetPageForAlloc_refines_counterexample:
  "reachable False False 1 0 (example_one UsedPages 0 4096) \<and>
   arena (example_one UsedPages 0 4096) [] [10] [] \<and>
   GetPageForAlloc False (Creates 11) (- 4096) 0 (example_one UsedPages 0 4096)
     = Some (Inr (Some 10, example_one UsedPages 0 4096)) \<and>
   spec_acquire (unat (m_increment (example_one UsedPages 0 4096)))
       (cursor (example_one UsedPages 0 4096)) [] [10] (unat (- 4096 :: size_t)) 0 11
     = (11, [], [11, 10])"
proof -
  have g: "GetPageForAlloc False (Creates 11) (- 4096) 0 (example_one UsedPages 0 4096)
     = Some (Inr (Some 10, example_one UsedPages 0 4096))"
    apply (simp add: GetPageForAlloc_def example_one_def set_head_def)
    apply (subst FindPageForAlloc_list.simps)
    apply (simp add: AlignOffset_def example_defs)
    done
  have s: "spec_acquire (unat (m_increment (example_one UsedPages 0 4096)))
       (cursor (example_one UsedPages 0 4096)) [] [10] (unat (- 4096 :: size_t)) 0 11
     = (11, [], [11, 10])"
    by (simp add: spec_acquire_def spec_fits_def spec_align_up_def spec_clean_page_def)
  show ?thesis
    using g s reachable_example(2)[of False False] arena_example_one(2) by simp
qed


end
